theory Spec2Isabelle
  imports Complex_Main "HOL-Library.AList"
begin

section \<open>Wumpus World: the game-state engine of \<open>Wumpus_world.py\<close>\<close>

text \<open>
  The development embeds the engine part of the program: the high-score file
  (\<open>load_high_score\<close>, \<open>save_high_score\<close>), the class \<open>ArrowProjectile\<close>, the class
  \<open>WumpusWorld\<close> with all its methods except \<open>update_popups\<close>, and the keyboard dispatch of
  \<open>main\<close>. Drawing code is not modelled.

  Conventions.
  \<^item> Python integers are \<open>int\<close>. The projectile's \<open>frac\<close> and \<open>speed\<close> are Python floats:
    binary64 numbers with their own addition and comparison, not reals.
  \<^item> Mutation of \<open>self\<close> is state passing: a method takes the world and returns the new one.
  \<^item> The module globals that the engine reads (\<open>CELL_SIZE\<close>, \<open>GRID_OFFSET_X\<close>,
    \<open>GRID_OFFSET_Y\<close>) and the content of the file \<open>wumpus_highscores.csv\<close> are fields of
    the state. The text that \<open>datetime.now().strftime(...)\<close> returns is a parameter \<open>now\<close>.
  \<^item> \<open>random.randint\<close> is modelled by the list of cells that successive pairs of calls
    return; a sampling loop that uses up the list without returning yields \<open>NoReturn\<close>.
\<close>

subsection \<open>The high-score file\<close>

text \<open>
  A row of the CSV file as \<open>csv.DictReader\<close> hands it over, seen through the three reads the
  program makes: \<open>int(row['grid_size'])\<close>, \<open>int(row['score'])\<close> and \<open>row['date']\<close>.
  \<open>None\<close> stands for a read that raises (missing column, text that is not an integer).
  The file is \<open>None\<close> when \<open>os.path.exists\<close> is false. Opening, reading and writing the
  file are taken to succeed.
\<close>

record csv_row =
  row_grid_size :: "int option"
  row_score :: "int option"
  row_date :: "string option"

type_synonym csv_file = "csv_row list option"

text \<open>The \<open>for row in reader\<close> loop of \<open>load_high_score\<close>; an exception leaves the loop
  and the function returns 0.\<close>

fun load_rows :: "int \<Rightarrow> csv_row list \<Rightarrow> int" where
  "load_rows gs [] = 0"
| "load_rows gs (r # rs) =
     (case row_grid_size r of
        None \<Rightarrow> 0
      | Some g \<Rightarrow>
          if g = gs then (case row_score r of None \<Rightarrow> 0 | Some s \<Rightarrow> s)
          else load_rows gs rs)"

definition load_high_score :: "csv_file \<Rightarrow> int \<Rightarrow> int" where
  "load_high_score f gs = (case f of None \<Rightarrow> 0 | Some rs \<Rightarrow> load_rows gs rs)"

text \<open>The dictionary \<open>scores\<close> of \<open>save_high_score\<close> is an association list in insertion
  order; \<open>AList.update\<close> is the assignment \<open>scores[gs] = ...\<close>. An exception in the reading
  loop keeps what was read so far.\<close>

type_synonym scores = "(int \<times> (int \<times> string)) list"

fun read_scores :: "csv_row list \<Rightarrow> scores \<Rightarrow> scores" where
  "read_scores [] acc = acc"
| "read_scores (r # rs) acc =
     (case row_grid_size r of
        None \<Rightarrow> acc
      | Some g \<Rightarrow>
          (case row_score r of
             None \<Rightarrow> acc
           | Some s \<Rightarrow>
               (case row_date r of
                  None \<Rightarrow> acc
                | Some d \<Rightarrow> read_scores rs (AList.update g (s, d) acc))))"

definition write_row :: "int \<times> (int \<times> string) \<Rightarrow> csv_row" where
  "write_row e = \<lparr>row_grid_size = Some (fst e), row_score = Some (fst (snd e)),
                  row_date = Some (snd (snd e))\<rparr>"

definition current_high :: "scores \<Rightarrow> int \<Rightarrow> int" where
  "current_high sc gs = (case map_of sc gs of None \<Rightarrow> 0 | Some e \<Rightarrow> fst e)"

definition save_high_score :: "string \<Rightarrow> csv_file \<Rightarrow> int \<Rightarrow> int \<Rightarrow> csv_file" where
  "save_high_score now f gs sc =
     (let scores0 = (case f of None \<Rightarrow> [] | Some rs \<Rightarrow> read_scores rs [])
      in if sc > current_high scores0 gs
         then Some (map write_row (sort_key fst (AList.update gs (sc, now) scores0)))
         else f)"

subsection \<open>Python floats\<close>

text \<open>
  A Python float is an IEEE 754 binary64 number. \<open>Fin s m e\<close> is the finite number
  \<open>m * 2^e\<close>, negated if \<open>s\<close>, in the one form that the format gives it: \<open>m < 2^53\<close>,
  \<open>-1074 \<le> e \<le> 971\<close>, and \<open>2^52 \<le> m\<close> unless \<open>e = -1074\<close> (zero and the subnormal numbers).
  \<open>s\<close> is the sign bit, so there are two zeros. The program uses the literals \<open>0.0\<close>,
  \<open>1.0\<close> and \<open>0.18\<close>, the addition \<open>+=\<close> and the comparison \<open>>=\<close>.
\<close>

datatype pyfloat = Fin bool nat int | Infty bool | NaN

text \<open>\<open>bits n\<close> is the number of binary digits of \<open>n\<close>.\<close>

fun bits :: "nat \<Rightarrow> nat" where
  "bits n = (if n = 0 then 0 else Suc (bits (n div 2)))"

declare bits.simps [simp del]

text \<open>Rounding of the exact number \<open>M * 2^E\<close> (negated if \<open>s\<close>) to the nearest float, ties to
  the even mantissa, as the default rounding mode does: the mantissa keeps 53 bits (fewer
  below \<open>2^-1022\<close>), and a result beyond the largest float is an infinity.\<close>

definition round_fin :: "bool \<Rightarrow> nat \<Rightarrow> int \<Rightarrow> pyfloat" where
  "round_fin s M E =
     (if M = 0 then Fin s 0 (- 1074)
      else
        let e = max (E + int (bits M) - 53) (- 1074);
            m = (if e \<le> E then M * 2 ^ nat (E - e)
                 else
                   let sh = nat (e - E);
                       q = M div 2 ^ sh;
                       r = M mod 2 ^ sh
                   in if 2 * r > 2 ^ sh \<or> (2 * r = 2 ^ sh \<and> odd q) then q + 1 else q);
            m' = (if m = 2 ^ 53 then 2 ^ 52 else m);
            e' = (if m = 2 ^ 53 then e + 1 else e)
        in if e' > 971 then Infty s else Fin s m' e')"

definition signed :: "bool \<Rightarrow> nat \<Rightarrow> int" where
  "signed s m = (if s then - int m else int m)"

text \<open>\<open>x + y\<close>: the exact sum, rounded. A zero added to a number that is not zero gives
  that number; an exact sum of zero is \<open>+0.0\<close>, except that \<open>-0.0 + -0.0\<close> is \<open>-0.0\<close>.\<close>

fun fadd :: "pyfloat \<Rightarrow> pyfloat \<Rightarrow> pyfloat" where
  "fadd (Fin s1 m1 e1) (Fin s2 m2 e2) =
     (if m1 = 0 \<and> m2 = 0 then Fin (s1 \<and> s2) 0 (- 1074)
      else if m1 = 0 then round_fin s2 m2 e2
      else if m2 = 0 then round_fin s1 m1 e1
      else
        let E = min e1 e2;
            A = signed s1 m1 * 2 ^ nat (e1 - E) + signed s2 m2 * 2 ^ nat (e2 - E)
        in if A = 0 then Fin False 0 (- 1074)
           else round_fin (A < 0) (nat \<bar>A\<bar>) E)"
| "fadd (Fin s1 m1 e1) (Infty t) = Infty t"
| "fadd (Infty s) (Fin s2 m2 e2) = Infty s"
| "fadd (Infty s) (Infty t) = (if s = t then Infty s else NaN)"
| "fadd NaN y = NaN"
| "fadd x NaN = NaN"

text \<open>\<open>x >= y\<close>: false as soon as one side is not a number.\<close>

fun fge :: "pyfloat \<Rightarrow> pyfloat \<Rightarrow> bool" where
  "fge (Fin s1 m1 e1) (Fin s2 m2 e2) =
     (let E = min e1 e2
      in signed s1 m1 * 2 ^ nat (e1 - E) \<ge> signed s2 m2 * 2 ^ nat (e2 - E))"
| "fge (Fin s1 m1 e1) (Infty t) = t"
| "fge (Infty s) (Fin s2 m2 e2) = (\<not> s)"
| "fge (Infty s) (Infty t) = (\<not> s \<or> t)"
| "fge NaN y = False"
| "fge x NaN = False"

text \<open>The literals. \<open>0.18\<close> is the float nearest to 18/100, which is
  \<open>6485183463413514 * 2^-55\<close> (\<open>0x1.70a3d70a3d70ap-3\<close>).\<close>

definition f_zero :: pyfloat where
  "f_zero = Fin False 0 (- 1074)"

definition f_one :: pyfloat where
  "f_one = Fin False 4503599627370496 (- 52)"

definition f_0_18 :: pyfloat where
  "f_0_18 = Fin False 6485183463413514 (- 55)"

subsection \<open>The projectile and the world\<close>

datatype gstate = MENU | PLAYING | PAUSED | AIM | GAME_OVER | WIN

type_synonym cell = "int \<times> int"

record ArrowProjectile =
  arrow_row :: int
  arrow_col :: int
  arrow_dr :: int
  arrow_dc :: int
  arrow_frac :: pyfloat
  arrow_speed :: pyfloat
  arrow_done :: bool
  arrow_hit_wumpus :: bool

definition new_arrow :: "int \<Rightarrow> int \<Rightarrow> int \<Rightarrow> int \<Rightarrow> ArrowProjectile" where
  "new_arrow start_row start_col dr dc =
     \<lparr>arrow_row = start_row, arrow_col = start_col, arrow_dr = dr, arrow_dc = dc,
      arrow_frac = f_zero, arrow_speed = f_0_18, arrow_done = False,
      arrow_hit_wumpus = False\<rparr>"

text \<open>A popup \<open>[x, y, text, alpha, col]\<close>; the text is the rendering of the points, which
  are kept as the number.\<close>

type_synonym popup = "int \<times> int \<times> int \<times> int \<times> (int \<times> int \<times> int)"

definition WIN_COL :: "int \<times> int \<times> int" where
  "WIN_COL = (60, 220, 120)"

definition LOSE_COL :: "int \<times> int \<times> int" where
  "LOSE_COL = (220, 60, 80)"

record world =
  grid_size :: int
  num_pits :: int
  high_score :: int
  game_state :: gstate
  agent_pos :: cell
  agent_alive :: bool
  has_gold :: bool
  wumpus_alive :: bool
  arrow_used :: bool
  visited :: "cell set"
  scored_cells :: "cell set"
  message :: string
  score :: int
  popups :: "popup list"
  aim_dir :: "cell option"
  arrow :: "ArrowProjectile option"
  wumpus :: cell
  gold :: cell
  pits :: "cell list"
  hs_file :: csv_file
  CELL_SIZE :: int
  GRID_OFFSET_X :: int
  GRID_OFFSET_Y :: int

subsection \<open>World generation\<close>

datatype error = ValueError

datatype 'a outcome = Returned 'a | Raised error | NoReturn

text \<open>\<open>_rand\<close>: \<open>random.randint(0, grid_size - 1)\<close> raises \<open>ValueError\<close> on an empty range;
  otherwise the loop draws cells until one is outside \<open>exclude\<close>. The result carries the
  draws not yet used.\<close>

fun rand :: "int \<Rightarrow> cell list \<Rightarrow> cell list \<Rightarrow> (cell \<times> cell list) outcome" where
  "rand gs exclude [] = (if gs \<le> 0 then Raised ValueError else NoReturn)"
| "rand gs exclude (c # cs) =
     (if gs \<le> 0 then Raised ValueError
      else if c \<notin> set exclude then Returned (c, cs)
      else rand gs exclude cs)"

text \<open>The loop \<open>for _ in range(self.num_pits)\<close>, with the number of rounds left.\<close>

fun place_pits ::
  "int \<Rightarrow> nat \<Rightarrow> cell \<Rightarrow> cell \<Rightarrow> cell list \<Rightarrow> cell list \<Rightarrow> (cell list \<times> cell list) outcome"
where
  "place_pits gs 0 wu go ps samples = Returned (ps, samples)"
| "place_pits gs (Suc n) wu go ps samples =
     (case rand gs ([(0, 0), wu, go] @ ps) samples of
        Returned (p, rest) \<Rightarrow> place_pits gs n wu go (ps @ [p]) rest
      | Raised e \<Rightarrow> Raised e
      | NoReturn \<Rightarrow> NoReturn)"

definition init_board :: "world \<Rightarrow> cell list \<Rightarrow> (world \<times> cell list) outcome" where
  "init_board w samples =
     (let w1 = w\<lparr>agent_pos := (0, 0), agent_alive := True, has_gold := False,
                 wumpus_alive := True, arrow_used := False, visited := {(0, 0)},
                 scored_cells := {(0, 0)}, message := '''', score := 0, popups := [],
                 aim_dir := None, arrow := None\<rparr>
      in case rand (grid_size w1) [(0, 0)] samples of
           Raised e \<Rightarrow> Raised e
         | NoReturn \<Rightarrow> NoReturn
         | Returned (wu, rest1) \<Rightarrow>
             (case rand (grid_size w1) [(0, 0), wu] rest1 of
                Raised e \<Rightarrow> Raised e
              | NoReturn \<Rightarrow> NoReturn
              | Returned (go, rest2) \<Rightarrow>
                  (case place_pits (grid_size w1) (nat (num_pits w1)) wu go [] rest2 of
                     Raised e \<Rightarrow> Raised e
                   | NoReturn \<Rightarrow> NoReturn
                   | Returned (ps, rest3) \<Rightarrow>
                       Returned (w1\<lparr>wumpus := wu, gold := go, pits := ps\<rparr>, rest3))))"

text \<open>\<open>WumpusWorld.__init__\<close> assigns \<open>grid_size\<close>, \<open>num_pits\<close>, \<open>high_score\<close> and
  \<open>game_state\<close> and then calls \<open>_init_board\<close>. The fields that \<open>_init_board\<close> assigns have
  no value before it runs; \<open>blank_world\<close> fills them with the values \<open>_init_board\<close> gives
  them. The display globals and the file are what the module holds when the constructor
  runs.\<close>

definition blank_world :: "int \<Rightarrow> csv_file \<Rightarrow> int \<Rightarrow> int \<Rightarrow> int \<Rightarrow> world" where
  "blank_world gs f cs ox oy =
     \<lparr>grid_size = gs, num_pits = gs, high_score = load_high_score f gs,
      game_state = MENU, agent_pos = (0, 0), agent_alive = True, has_gold = False,
      wumpus_alive = True, arrow_used = False, visited = {(0, 0)},
      scored_cells = {(0, 0)}, message = '''', score = 0, popups = [], aim_dir = None,
      arrow = None, wumpus = (0, 0), gold = (0, 0), pits = [], hs_file = f,
      CELL_SIZE = cs, GRID_OFFSET_X = ox, GRID_OFFSET_Y = oy\<rparr>"

definition new_world ::
  "int \<Rightarrow> csv_file \<Rightarrow> int \<Rightarrow> int \<Rightarrow> int \<Rightarrow> cell list \<Rightarrow> (world \<times> cell list) outcome"
where
  "new_world gs f cs ox oy samples = init_board (blank_world gs f cs ox oy) samples"

definition restart :: "world \<Rightarrow> cell list \<Rightarrow> (world \<times> cell list) outcome" where
  "restart w samples =
     (let hs = high_score w
      in case init_board w samples of
           Raised e \<Rightarrow> Raised e
         | NoReturn \<Rightarrow> NoReturn
         | Returned (w1, rest) \<Rightarrow>
             Returned (w1\<lparr>high_score := hs, game_state := PLAYING\<rparr>, rest))"

subsection \<open>Percepts\<close>

definition adjacent :: "world \<Rightarrow> cell \<Rightarrow> cell list" where
  "adjacent w pos =
     (let x = fst pos; y = snd pos
      in (if x > 0 then [(x - 1, y)] else [])
       @ (if x < grid_size w - 1 then [(x + 1, y)] else [])
       @ (if y > 0 then [(x, y - 1)] else [])
       @ (if y < grid_size w - 1 then [(x, y + 1)] else []))"

definition percepts :: "world \<Rightarrow> string list" where
  "percepts w =
     (if list_ex (\<lambda>pit. pit \<in> set (adjacent w (agent_pos w))) (pits w)
      then [''Breeze''] else [])
   @ (if wumpus_alive w \<and> wumpus w \<in> set (adjacent w (agent_pos w))
      then [''Stench''] else [])
   @ (if agent_pos w = gold w \<and> \<not> has_gold w then [''Glitter''] else [])"

subsection \<open>Scoring\<close>

definition grid_to_screen :: "world \<Rightarrow> int \<Rightarrow> int \<Rightarrow> int \<times> int" where
  "grid_to_screen w r c =
     (GRID_OFFSET_X w + c * CELL_SIZE w + CELL_SIZE w div 2,
      GRID_OFFSET_Y w + r * CELL_SIZE w + CELL_SIZE w div 2)"

definition add_score :: "string \<Rightarrow> int \<Rightarrow> int \<Rightarrow> int \<Rightarrow> world \<Rightarrow> world" where
  "add_score now pts r c w =
     (let w1 = w\<lparr>score := score w + pts\<rparr>;
          w2 = (if score w1 > high_score w1
                then w1\<lparr>high_score := score w1,
                        hs_file := save_high_score now (hs_file w1) (grid_size w1) (score w1)\<rparr>
                else w1);
          cx = fst (grid_to_screen w2 r c);
          cy = snd (grid_to_screen w2 r c);
          colr = (if pts > 0 then WIN_COL else LOSE_COL)
      in w2\<lparr>popups := popups w2 @ [(cx, cy - 10, pts, 255, colr)]\<rparr>)"

subsection \<open>The arrow\<close>

definition update_arrow :: "string \<Rightarrow> world \<Rightarrow> world" where
  "update_arrow now w =
     (case arrow w of
        None \<Rightarrow> w
      | Some a \<Rightarrow>
          if arrow_done a then w
          else
            let a1 = a\<lparr>arrow_frac := fadd (arrow_frac a) (arrow_speed a)\<rparr>
            in if fge (arrow_frac a1) f_one
               then
                 let a2 = a1\<lparr>arrow_row := arrow_row a1 + arrow_dr a1,
                             arrow_col := arrow_col a1 + arrow_dc a1,
                             arrow_frac := f_zero\<rparr>;
                     r = arrow_row a2;
                     c = arrow_col a2
                 in if wumpus_alive w \<and> (r, c) = wumpus w
                    then
                      (add_score now 300 r c
                         (w\<lparr>arrow := Some (a2\<lparr>arrow_hit_wumpus := True, arrow_done := True\<rparr>),
                            wumpus_alive := False\<rparr>))
                      \<lparr>message := ''Wumpus slain! +300 (-50 arrow)''\<rparr>
                    else if \<not> (0 \<le> r \<and> r < grid_size w \<and> 0 \<le> c \<and> c < grid_size w)
                    then w\<lparr>arrow := Some (a2\<lparr>arrow_done := True\<rparr>),
                            message := ''Arrow missed! (-50 charged on fire)''\<rparr>
                    else w\<lparr>arrow := Some a2\<rparr>
               else w\<lparr>arrow := Some a1\<rparr>)"

subsection \<open>Actions\<close>

definition enter_aim_mode :: "world \<Rightarrow> world" where
  "enter_aim_mode w =
     (if arrow_used w \<or> game_state w \<noteq> PLAYING then w
      else w\<lparr>game_state := AIM, aim_dir := None,
              message := ''AIM: Press an arrow key to shoot!''\<rparr>)"

definition fire_arrow :: "string \<Rightarrow> int \<Rightarrow> int \<Rightarrow> world \<Rightarrow> world" where
  "fire_arrow now dr dc w =
     (if arrow_used w then w
      else
        let w1 = w\<lparr>arrow_used := True, game_state := PLAYING\<rparr>;
            r = fst (agent_pos w1);
            c = snd (agent_pos w1);
            w2 = add_score now (- 50) r c w1
        in w2\<lparr>arrow := Some (new_arrow r c dr dc)\<rparr>)"

definition cancel_aim :: "world \<Rightarrow> world" where
  "cancel_aim w = w\<lparr>game_state := PLAYING, message := ''Aim cancelled.''\<rparr>"

definition check_danger :: "world \<Rightarrow> world" where
  "check_danger w =
     (if agent_pos w \<in> set (pits w)
      then w\<lparr>agent_alive := False, game_state := GAME_OVER, message := ''Fell into a pit!''\<rparr>
      else if agent_pos w = wumpus w \<and> wumpus_alive w
      then w\<lparr>agent_alive := False, game_state := GAME_OVER,
              message := ''Eaten by the Wumpus!''\<rparr>
      else w)"

definition move :: "string \<Rightarrow> int \<Rightarrow> int \<Rightarrow> world \<Rightarrow> world" where
  "move now dx dy w =
     (if game_state w \<noteq> PLAYING then w
      else
        let nx = fst (agent_pos w) + dx;
            ny = snd (agent_pos w) + dy
        in if 0 \<le> nx \<and> nx < grid_size w \<and> 0 \<le> ny \<and> ny < grid_size w
           then
             let w1 = w\<lparr>agent_pos := (nx, ny), visited := insert (nx, ny) (visited w)\<rparr>;
                 safe = ((nx, ny) \<notin> set (pits w1)
                         \<and> \<not> ((nx, ny) = wumpus w1 \<and> wumpus_alive w1));
                 w2 = (if safe \<and> (nx, ny) \<notin> scored_cells w1
                       then add_score now 10 nx ny
                              (w1\<lparr>scored_cells := insert (nx, ny) (scored_cells w1)\<rparr>)
                       else w1);
                 w3 = check_danger w2
             in if has_gold w3 \<and> agent_pos w3 = (0, 0) \<and> game_state w3 = PLAYING
                then w3\<lparr>game_state := WIN, message := ''Escaped with the gold!''\<rparr>
                else w3
           else w)"

definition grab :: "string \<Rightarrow> world \<Rightarrow> world" where
  "grab now w =
     (if game_state w \<noteq> PLAYING then w
      else
        let r = fst (agent_pos w);
            c = snd (agent_pos w);
            w1 = (if (r, c) = gold w \<and> \<not> has_gold w
                  then (add_score now 1000 r c (w\<lparr>has_gold := True\<rparr>))
                         \<lparr>message := ''Gold grabbed! +1000 pts! Head to start!''\<rparr>
                  else w)
        in if has_gold w1 \<and> (r, c) = (0, 0)
           then w1\<lparr>game_state := WIN, message := ''Escaped with the gold!''\<rparr>
           else w1)"

subsection \<open>The keyboard dispatch of \<open>main\<close>\<close>

text \<open>The \<open>KEYDOWN\<close> branch of the event loop. The branch is chosen by the state the game is
  in when the key arrives; inside the \<open>PLAYING\<close> and \<open>PAUSED\<close> branches the tests are on the
  key alone, so at most one of them fires. \<open>running\<close> is the loop flag. A restart draws from
  the random source and may not return.\<close>

datatype key = K_UP | K_DOWN | K_LEFT | K_RIGHT | K_ESCAPE | K_SPACE | K_g | K_r | K_p | K_other

definition key_down ::
  "string \<Rightarrow> key \<Rightarrow> world \<Rightarrow> bool \<Rightarrow> cell list \<Rightarrow> (world \<times> bool \<times> cell list) outcome"
where
  "key_down now k w running samples =
     (if game_state w = AIM then
        (case k of
           K_UP \<Rightarrow> Returned (fire_arrow now (- 1) 0 w, running, samples)
         | K_DOWN \<Rightarrow> Returned (fire_arrow now 1 0 w, running, samples)
         | K_LEFT \<Rightarrow> Returned (fire_arrow now 0 (- 1) w, running, samples)
         | K_RIGHT \<Rightarrow> Returned (fire_arrow now 0 1 w, running, samples)
         | K_ESCAPE \<Rightarrow> Returned (cancel_aim w, running, samples)
         | K_SPACE \<Rightarrow> Returned (cancel_aim w, running, samples)
         | _ \<Rightarrow> Returned (w, running, samples))
      else if game_state w = PLAYING then
        (case k of
           K_UP \<Rightarrow> Returned (move now (- 1) 0 w, running, samples)
         | K_DOWN \<Rightarrow> Returned (move now 1 0 w, running, samples)
         | K_LEFT \<Rightarrow> Returned (move now 0 (- 1) w, running, samples)
         | K_RIGHT \<Rightarrow> Returned (move now 0 1 w, running, samples)
         | K_SPACE \<Rightarrow> Returned (enter_aim_mode w, running, samples)
         | K_g \<Rightarrow> Returned (grab now w, running, samples)
         | K_r \<Rightarrow>
             (case restart w samples of
                Returned (w1, rest) \<Rightarrow> Returned (w1, running, rest)
              | Raised e \<Rightarrow> Raised e
              | NoReturn \<Rightarrow> NoReturn)
         | K_p \<Rightarrow> Returned (w\<lparr>game_state := PAUSED\<rparr>, running, samples)
         | K_ESCAPE \<Rightarrow> Returned (w, False, samples)
         | _ \<Rightarrow> Returned (w, running, samples))
      else if game_state w = PAUSED then
        (case k of
           K_p \<Rightarrow> Returned (w\<lparr>game_state := PLAYING\<rparr>, running, samples)
         | K_r \<Rightarrow>
             (case restart w samples of
                Returned (w1, rest) \<Rightarrow> Returned (w1, running, rest)
              | Raised e \<Rightarrow> Raised e
              | NoReturn \<Rightarrow> NoReturn)
         | K_ESCAPE \<Rightarrow> Returned (w, False, samples)
         | _ \<Rightarrow> Returned (w, running, samples))
      else Returned (w, running, samples))"

subsection \<open>One game instance: sequences of engine calls\<close>

text \<open>A game instance lasts from one \<open>_init_board\<close> to the next. Within it the world is changed
  by the methods below and by the two assignments to \<open>game_state\<close> that the event loop makes
  itself (pause and resume). Every call comes with the clock text of its moment. Sequences
  are not restricted to those the event loop produces.\<close>

datatype action =
  Move int int | Grab | EnterAim | Fire int int | CancelAim | Tick | Pause | Resume

fun step :: "string \<Rightarrow> action \<Rightarrow> world \<Rightarrow> world" where
  "step now (Move dx dy) w = move now dx dy w"
| "step now Grab w = grab now w"
| "step now EnterAim w = enter_aim_mode w"
| "step now (Fire dr dc) w = fire_arrow now dr dc w"
| "step now CancelAim w = cancel_aim w"
| "step now Tick w = update_arrow now w"
| "step now Pause w = w\<lparr>game_state := PAUSED\<rparr>"
| "step now Resume w = w\<lparr>game_state := PLAYING\<rparr>"

fun run :: "(string \<times> action) list \<Rightarrow> world \<Rightarrow> world" where
  "run [] w = w"
| "run (ta # tas) w = run tas (step (fst ta) (snd ta) w)"

fun is_fire :: "action \<Rightarrow> bool" where
  "is_fire (Fire dr dc) = True"
| "is_fire a = False"

definition save_all :: "(string \<times> int \<times> int) list \<Rightarrow> csv_file \<Rightarrow> csv_file" where
  "save_all reqs f =
     fold (\<lambda>q f'. save_high_score (fst q) f' (fst (snd q)) (snd (snd q))) reqs f"

subsection \<open>Notions used in the statements\<close>

definition in_bounds :: "int \<Rightarrow> cell \<Rightarrow> bool" where
  "in_bounds gs c = (0 \<le> fst c \<and> fst c < gs \<and> 0 \<le> snd c \<and> snd c < gs)"

definition all_in_bounds :: "int \<Rightarrow> cell list \<Rightarrow> bool" where
  "all_in_bounds gs cs = list_all (in_bounds gs) cs"

definition orth_adjacent :: "cell \<Rightarrow> cell \<Rightarrow> bool" where
  "orth_adjacent p c =
     ((fst c = fst p \<and> \<bar>snd c - snd p\<bar> = 1) \<or> (snd c = snd p \<and> \<bar>fst c - fst p\<bar> = 1))"

definition lethal :: "world \<Rightarrow> cell \<Rightarrow> bool" where
  "lethal w c = (c \<in> set (pits w) \<or> (wumpus_alive w \<and> c = wumpus w))"

definition target :: "world \<Rightarrow> int \<Rightarrow> int \<Rightarrow> cell" where
  "target w dx dy = (fst (agent_pos w) + dx, snd (agent_pos w) + dy)"

text \<open>The two inner steps of \<open>move\<close>, named so that \<open>move\<close> can be read as their composition.\<close>

definition visit_bonus :: "string \<Rightarrow> cell \<Rightarrow> world \<Rightarrow> world" where
  "visit_bonus now t w =
     (if (t \<notin> set (pits w) \<and> \<not> (t = wumpus w \<and> wumpus_alive w)) \<and> t \<notin> scored_cells w
      then add_score now 10 (fst t) (snd t) (w\<lparr>scored_cells := insert t (scored_cells w)\<rparr>)
      else w)"

definition win_check :: "world \<Rightarrow> world" where
  "win_check w =
     (if has_gold w \<and> agent_pos w = (0, 0) \<and> game_state w = PLAYING
      then w\<lparr>game_state := WIN, message := ''Escaped with the gold!''\<rparr> else w)"

text \<open>A store in which every row reads back and no grid size occurs twice: the files that
  \<open>save_high_score\<close> writes, and the absent file.\<close>

definition rows_ok :: "csv_row list \<Rightarrow> bool" where
  "rows_ok rs =
     (list_all (\<lambda>r. row_grid_size r \<noteq> None \<and> row_score r \<noteq> None \<and> row_date r \<noteq> None) rs
      \<and> distinct (map row_grid_size rs))"

definition store_ok :: "csv_file \<Rightarrow> bool" where
  "store_ok f = (case f of None \<Rightarrow> True | Some rs \<Rightarrow> rows_ok rs)"

definition rows_of :: "csv_file \<Rightarrow> csv_row list" where
  "rows_of f = (case f of None \<Rightarrow> [] | Some rs \<Rightarrow> rs)"

definition record_for :: "csv_file \<Rightarrow> int \<Rightarrow> csv_row list" where
  "record_for f g = filter (\<lambda>r. row_grid_size r = Some g) (rows_of f)"

definition entry_of :: "csv_row \<Rightarrow> int \<times> (int \<times> string)" where
  "entry_of r = (the (row_grid_size r), (the (row_score r), the (row_date r)))"

definition entries :: "csv_file \<Rightarrow> scores" where
  "entries f = map entry_of (rows_of f)"

subsection \<open>A concrete world\<close>

text \<open>A 4 by 4 board as \<open>_init_board\<close> produces it from the draws \<open>example_draws\<close>, in the
  state \<open>PLAYING\<close>.\<close>

definition example_world :: world where
  "example_world =
     \<lparr>grid_size = 4, num_pits = 4, high_score = 0, game_state = PLAYING, agent_pos = (0, 0),
      agent_alive = True, has_gold = False, wumpus_alive = True, arrow_used = False,
      visited = {(0, 0)}, scored_cells = {(0, 0)}, message = '''', score = 0, popups = [],
      aim_dir = None, arrow = None, wumpus = (0, 2), gold = (1, 1),
      pits = [(3, 0), (3, 1), (3, 2), (3, 3)], hs_file = None,
      CELL_SIZE = 100, GRID_OFFSET_X = 40, GRID_OFFSET_Y = 20\<rparr>"

definition example_draws :: "cell list" where
  "example_draws =
     [(0, 0), (0, 2), (0, 2), (1, 1), (3, 0), (0, 0), (3, 0), (3, 1), (3, 2), (3, 3), (2, 2)]"

text \<open>The same board after the arrow has been fired to the right from \<open>(0, 0)\<close>: the
  projectile has reached the cell \<open>(0, 1)\<close>, has been stepped five more times (its \<open>frac\<close>
  is the float \<open>0.8999999999999999\<close>) and is about to cross into \<open>(0, 2)\<close>.\<close>

definition example_arrow :: ArrowProjectile where
  "example_arrow =
     \<lparr>arrow_row = 0, arrow_col = 1, arrow_dr = 0, arrow_dc = 1,
      arrow_frac = Fin False 8106479329266892 (- 53), arrow_speed = f_0_18,
      arrow_done = False, arrow_hit_wumpus = False\<rparr>"

definition example_flight :: world where
  "example_flight = example_world\<lparr>arrow_used := True, score := - 50, arrow := Some example_arrow\<rparr>"

text \<open>The same board with the gold in hand and the agent back on the start cell, in the
  state \<open>PLAYING\<close> (reached from \<open>WIN\<close> through \<open>cancel_aim\<close>, which sets \<open>PLAYING\<close> whatever
  the state was).\<close>

definition example_carrying :: world where
  "example_carrying = example_world\<lparr>has_gold := True, score := 1040\<rparr>"

definition example_now :: string where
  "example_now = ''2024-05-01 10:00:00''"

definition example_store :: csv_file where
  "example_store = Some [write_row (6, (500, ''2024-04-30 18:00:00''))]"

text \<open>Two properties of the states the engine reaches: a projectile marked as a hit is
  resolved, and the agent stands on the grid.\<close>

definition arrow_inv :: "world \<Rightarrow> bool" where
  "arrow_inv w = (case arrow w of None \<Rightarrow> True | Some a \<Rightarrow> arrow_hit_wumpus a \<longrightarrow> arrow_done a)"

definition agent_on_grid :: "world \<Rightarrow> bool" where
  "agent_on_grid w = in_bounds (grid_size w) (agent_pos w)"

text \<open>The rational number that a finite float stands for, and the form the format gives
  it.\<close>

fun valof :: "pyfloat \<Rightarrow> rat" where
  "valof (Fin s m e) =
     of_int (signed s m) * (if 0 \<le> e then 2 ^ nat e else 1 / 2 ^ nat (- e))"
| "valof (Infty s) = 0"
| "valof NaN = 0"

fun canonical :: "pyfloat \<Rightarrow> bool" where
  "canonical (Fin s m e) =
     (m < 2 ^ 53 \<and> - 1074 \<le> e \<and> e \<le> 971 \<and> (e = - 1074 \<or> 2 ^ 52 \<le> m))"
| "canonical (Infty s) = True"
| "canonical NaN = True"

text \<open>\<open>tick_n n\<close> is \<open>n\<close> simulation steps.\<close>

fun tick_n :: "nat \<Rightarrow> string \<Rightarrow> world \<Rightarrow> world" where
  "tick_n 0 now w = w"
| "tick_n (Suc n) now w = tick_n n now (update_arrow now w)"

text \<open>\<open>frac_after n\<close> is the value of \<open>frac\<close> after \<open>n\<close> additions of \<open>0.18\<close> to \<open>0.0\<close>.\<close>

fun frac_after :: "nat \<Rightarrow> pyfloat" where
  "frac_after 0 = f_zero"
| "frac_after (Suc n) = fadd (frac_after n) f_0_18"


section \<open>Properties of the engine\<close>

subsection \<open>Field lemmas and facts about sequences of calls\<close>

lemma add_score_fields:
  "score (add_score now pts r c w) = score w + pts"
  "grid_size (add_score now pts r c w) = grid_size w"
  "num_pits (add_score now pts r c w) = num_pits w"
  "game_state (add_score now pts r c w) = game_state w"
  "agent_pos (add_score now pts r c w) = agent_pos w"
  "agent_alive (add_score now pts r c w) = agent_alive w"
  "has_gold (add_score now pts r c w) = has_gold w"
  "wumpus_alive (add_score now pts r c w) = wumpus_alive w"
  "arrow_used (add_score now pts r c w) = arrow_used w"
  "visited (add_score now pts r c w) = visited w"
  "scored_cells (add_score now pts r c w) = scored_cells w"
  "arrow (add_score now pts r c w) = arrow w"
  "wumpus (add_score now pts r c w) = wumpus w"
  "gold (add_score now pts r c w) = gold w"
  "pits (add_score now pts r c w) = pits w"
  by (simp_all add: add_score_def Let_def)

lemma move_unfold:
  "move now dx dy w =
     (if game_state w \<noteq> PLAYING then w
      else if in_bounds (grid_size w) (fst (agent_pos w) + dx, snd (agent_pos w) + dy)
      then win_check (check_danger (visit_bonus now (fst (agent_pos w) + dx, snd (agent_pos w) + dy)
             (w\<lparr>agent_pos := (fst (agent_pos w) + dx, snd (agent_pos w) + dy),
                 visited := insert (fst (agent_pos w) + dx, snd (agent_pos w) + dy) (visited w)\<rparr>)))
      else w)"
  unfolding move_def visit_bonus_def win_check_def in_bounds_def Let_def
  by (simp split del: if_split cong: if_cong)

lemma visit_bonus_fields:
  "grid_size (visit_bonus now t w) = grid_size w"
  "game_state (visit_bonus now t w) = game_state w"
  "agent_pos (visit_bonus now t w) = agent_pos w"
  "agent_alive (visit_bonus now t w) = agent_alive w"
  "has_gold (visit_bonus now t w) = has_gold w"
  "wumpus_alive (visit_bonus now t w) = wumpus_alive w"
  "arrow_used (visit_bonus now t w) = arrow_used w"
  "visited (visit_bonus now t w) = visited w"
  "arrow (visit_bonus now t w) = arrow w"
  "wumpus (visit_bonus now t w) = wumpus w"
  "gold (visit_bonus now t w) = gold w"
  "pits (visit_bonus now t w) = pits w"
  by (simp_all add: visit_bonus_def add_score_fields)

lemma check_danger_fields:
  "grid_size (check_danger w) = grid_size w"
  "agent_pos (check_danger w) = agent_pos w"
  "has_gold (check_danger w) = has_gold w"
  "wumpus_alive (check_danger w) = wumpus_alive w"
  "arrow_used (check_danger w) = arrow_used w"
  "visited (check_danger w) = visited w"
  "scored_cells (check_danger w) = scored_cells w"
  "score (check_danger w) = score w"
  "arrow (check_danger w) = arrow w"
  "wumpus (check_danger w) = wumpus w"
  "gold (check_danger w) = gold w"
  "pits (check_danger w) = pits w"
  by (simp_all add: check_danger_def)

lemma win_check_fields:
  "grid_size (win_check w) = grid_size w"
  "agent_pos (win_check w) = agent_pos w"
  "agent_alive (win_check w) = agent_alive w"
  "has_gold (win_check w) = has_gold w"
  "wumpus_alive (win_check w) = wumpus_alive w"
  "arrow_used (win_check w) = arrow_used w"
  "visited (win_check w) = visited w"
  "scored_cells (win_check w) = scored_cells w"
  "score (win_check w) = score w"
  "arrow (win_check w) = arrow w"
  "wumpus (win_check w) = wumpus w"
  "gold (win_check w) = gold w"
  "pits (win_check w) = pits w"
  by (simp_all add: win_check_def)

lemma visit_bonus_scored:
  "scored_cells w \<subseteq> scored_cells (visit_bonus now t w)"
  by (auto simp: visit_bonus_def add_score_fields)

lemma visit_bonus_score:
  "score (visit_bonus now t w) =
     (if \<not> lethal w t \<and> t \<notin> scored_cells w then score w + 10 else score w)"
  by (auto simp: visit_bonus_def add_score_fields lethal_def)

lemma visit_bonus_scored_eq:
  "scored_cells (visit_bonus now t w) =
     (if \<not> lethal w t \<and> t \<notin> scored_cells w then insert t (scored_cells w) else scored_cells w)"
  by (auto simp: visit_bonus_def add_score_fields lethal_def)

lemma move_fields:
  "grid_size (move now dx dy w) = grid_size w"
  "has_gold (move now dx dy w) = has_gold w"
  "wumpus_alive (move now dx dy w) = wumpus_alive w"
  "arrow_used (move now dx dy w) = arrow_used w"
  "arrow (move now dx dy w) = arrow w"
  "wumpus (move now dx dy w) = wumpus w"
  "gold (move now dx dy w) = gold w"
  "pits (move now dx dy w) = pits w"
  by (simp_all add: move_unfold win_check_fields check_danger_fields visit_bonus_fields)

lemma move_scored: "scored_cells w \<subseteq> scored_cells (move now dx dy w)"
  by (auto simp: move_unfold win_check_fields check_danger_fields visit_bonus_scored_eq)

lemma grab_fields:
  "grid_size (grab now w) = grid_size w"
  "agent_pos (grab now w) = agent_pos w"
  "wumpus_alive (grab now w) = wumpus_alive w"
  "arrow_used (grab now w) = arrow_used w"
  "scored_cells (grab now w) = scored_cells w"
  "arrow (grab now w) = arrow w"
  "wumpus (grab now w) = wumpus w"
  "gold (grab now w) = gold w"
  "pits (grab now w) = pits w"
  by (simp_all add: grab_def Let_def add_score_fields)

lemma fire_arrow_fields:
  "grid_size (fire_arrow now dr dc w) = grid_size w"
  "agent_pos (fire_arrow now dr dc w) = agent_pos w"
  "wumpus_alive (fire_arrow now dr dc w) = wumpus_alive w"
  "scored_cells (fire_arrow now dr dc w) = scored_cells w"
  "arrow_used (fire_arrow now dr dc w)"
  "wumpus (fire_arrow now dr dc w) = wumpus w"
  "pits (fire_arrow now dr dc w) = pits w"
  by (simp_all add: fire_arrow_def Let_def add_score_fields)

lemma enter_aim_mode_fields:
  "wumpus_alive (enter_aim_mode w) = wumpus_alive w"
  "arrow_used (enter_aim_mode w) = arrow_used w"
  "scored_cells (enter_aim_mode w) = scored_cells w"
  by (simp_all add: enter_aim_mode_def)

lemma cancel_aim_fields:
  "wumpus_alive (cancel_aim w) = wumpus_alive w"
  "arrow_used (cancel_aim w) = arrow_used w"
  "scored_cells (cancel_aim w) = scored_cells w"
  by (simp_all add: cancel_aim_def)

text \<open>\<open>update_arrow\<close>, branch by branch.\<close>

lemma update_arrow_idle:
  "arrow w = None \<or> (\<exists>a. arrow w = Some a \<and> arrow_done a) \<Longrightarrow> update_arrow now w = w"
  by (auto simp: update_arrow_def)

lemma update_arrow_advance:
  assumes "arrow w = Some a" "\<not> arrow_done a" "\<not> fge (fadd (arrow_frac a) (arrow_speed a)) f_one"
  shows "update_arrow now w = w\<lparr>arrow := Some (a\<lparr>arrow_frac := fadd (arrow_frac a) (arrow_speed a)\<rparr>)\<rparr>"
  using assms by (simp add: update_arrow_def Let_def)

lemma update_arrow_hit:
  assumes "arrow w = Some a" "\<not> arrow_done a" "fge (fadd (arrow_frac a) (arrow_speed a)) f_one"
    and "wumpus_alive w" "(arrow_row a + arrow_dr a, arrow_col a + arrow_dc a) = wumpus w"
  shows "update_arrow now w =
     (add_score now 300 (arrow_row a + arrow_dr a) (arrow_col a + arrow_dc a)
        (w\<lparr>arrow := Some (a\<lparr>arrow_row := arrow_row a + arrow_dr a,
                             arrow_col := arrow_col a + arrow_dc a, arrow_frac := f_zero,
                             arrow_hit_wumpus := True, arrow_done := True\<rparr>),
           wumpus_alive := False\<rparr>))
     \<lparr>message := ''Wumpus slain! +300 (-50 arrow)''\<rparr>"
  using assms by (simp add: update_arrow_def Let_def)

lemma update_arrow_miss:
  assumes "arrow w = Some a" "\<not> arrow_done a" "fge (fadd (arrow_frac a) (arrow_speed a)) f_one"
    and "\<not> (wumpus_alive w \<and> (arrow_row a + arrow_dr a, arrow_col a + arrow_dc a) = wumpus w)"
    and "\<not> in_bounds (grid_size w) (arrow_row a + arrow_dr a, arrow_col a + arrow_dc a)"
  shows "update_arrow now w =
     w\<lparr>arrow := Some (a\<lparr>arrow_row := arrow_row a + arrow_dr a,
                         arrow_col := arrow_col a + arrow_dc a, arrow_frac := f_zero,
                         arrow_done := True\<rparr>),
       message := ''Arrow missed! (-50 charged on fire)''\<rparr>"
  using assms by (auto simp: update_arrow_def Let_def in_bounds_def)

lemma update_arrow_fly:
  assumes "arrow w = Some a" "\<not> arrow_done a" "fge (fadd (arrow_frac a) (arrow_speed a)) f_one"
    and "\<not> (wumpus_alive w \<and> (arrow_row a + arrow_dr a, arrow_col a + arrow_dc a) = wumpus w)"
    and "in_bounds (grid_size w) (arrow_row a + arrow_dr a, arrow_col a + arrow_dc a)"
  shows "update_arrow now w =
     w\<lparr>arrow := Some (a\<lparr>arrow_row := arrow_row a + arrow_dr a,
                         arrow_col := arrow_col a + arrow_dc a, arrow_frac := f_zero\<rparr>)\<rparr>"
  using assms by (auto simp: update_arrow_def Let_def in_bounds_def)

lemma update_arrow_cases:
  obtains (idle) "update_arrow now w = w"
  | (advance) a where "arrow w = Some a" "\<not> arrow_done a" "\<not> fge (fadd (arrow_frac a) (arrow_speed a)) f_one"
  | (hit) a where "arrow w = Some a" "\<not> arrow_done a" "fge (fadd (arrow_frac a) (arrow_speed a)) f_one"
      "wumpus_alive w" "(arrow_row a + arrow_dr a, arrow_col a + arrow_dc a) = wumpus w"
  | (miss) a where "arrow w = Some a" "\<not> arrow_done a" "fge (fadd (arrow_frac a) (arrow_speed a)) f_one"
      "\<not> (wumpus_alive w \<and> (arrow_row a + arrow_dr a, arrow_col a + arrow_dc a) = wumpus w)"
      "\<not> in_bounds (grid_size w) (arrow_row a + arrow_dr a, arrow_col a + arrow_dc a)"
  | (fly) a where "arrow w = Some a" "\<not> arrow_done a" "fge (fadd (arrow_frac a) (arrow_speed a)) f_one"
      "\<not> (wumpus_alive w \<and> (arrow_row a + arrow_dr a, arrow_col a + arrow_dc a) = wumpus w)"
      "in_bounds (grid_size w) (arrow_row a + arrow_dr a, arrow_col a + arrow_dc a)"
proof (cases "arrow w")
  case None
  then show ?thesis using idle update_arrow_idle by blast
next
  case (Some a)
  then show ?thesis
    using idle advance hit miss fly update_arrow_idle [of w now] by blast
qed

lemma update_arrow_fields:
  "grid_size (update_arrow now w) = grid_size w"
  "arrow_used (update_arrow now w) = arrow_used w"
  "scored_cells (update_arrow now w) = scored_cells w"
  "agent_pos (update_arrow now w) = agent_pos w"
  "game_state (update_arrow now w) = game_state w"
  "wumpus (update_arrow now w) = wumpus w"
  "pits (update_arrow now w) = pits w"
  by (cases now w rule: update_arrow_cases;
      simp add: update_arrow_advance update_arrow_hit update_arrow_miss update_arrow_fly
        add_score_fields)+

lemma update_arrow_wumpus_dead:
  "\<not> wumpus_alive w \<Longrightarrow> \<not> wumpus_alive (update_arrow now w)"
  by (cases now w rule: update_arrow_cases)
     (simp_all add: update_arrow_advance update_arrow_miss update_arrow_fly)

lemma update_arrow_score:
  "score (update_arrow now w) = score w \<or> score (update_arrow now w) = score w + 300"
  by (cases now w rule: update_arrow_cases)
     (simp_all add: update_arrow_advance update_arrow_hit update_arrow_miss update_arrow_fly
        add_score_fields)

text \<open>Three facts that hold along every sequence of engine calls.\<close>

lemma step_arrow_used: "arrow_used w \<Longrightarrow> arrow_used (step now a w)"
  by (cases a)
     (simp_all add: move_fields grab_fields fire_arrow_fields enter_aim_mode_fields
        cancel_aim_fields update_arrow_fields)

lemma step_wumpus_dead: "\<not> wumpus_alive w \<Longrightarrow> \<not> wumpus_alive (step now a w)"
  by (cases a)
     (simp_all add: move_fields grab_fields fire_arrow_fields enter_aim_mode_fields
        cancel_aim_fields update_arrow_wumpus_dead)

lemma step_scored: "scored_cells w \<subseteq> scored_cells (step now a w)"
  by (cases a)
     (simp_all add: move_scored grab_fields fire_arrow_fields enter_aim_mode_fields
        cancel_aim_fields update_arrow_fields)

lemma run_arrow_used: "arrow_used w \<Longrightarrow> arrow_used (run tas w)"
  by (induction tas arbitrary: w) (simp_all add: step_arrow_used)

lemma run_wumpus_dead: "\<not> wumpus_alive w \<Longrightarrow> \<not> wumpus_alive (run tas w)"
  by (induction tas arbitrary: w) (simp_all add: step_wumpus_dead)

lemma run_scored: "scored_cells w \<subseteq> scored_cells (run tas w)"
proof (induction tas arbitrary: w)
  case Nil
  show ?case by simp
next
  case (Cons ta tas)
  have "scored_cells w \<subseteq> scored_cells (step (fst ta) (snd ta) w)" by (rule step_scored)
  also have "\<dots> \<subseteq> scored_cells (run tas (step (fst ta) (snd ta) w))" by (rule Cons.IH)
  finally show ?case by simp
qed

lemma run_skip_fire:
  "arrow_used w \<Longrightarrow> run tas w = run (filter (\<lambda>ta. \<not> is_fire (snd ta)) tas) w"
proof (induction tas arbitrary: w)
  case Nil
  show ?case by simp
next
  case (Cons ta tas)
  show ?case
  proof (cases "is_fire (snd ta)")
    case True
    then obtain dr dc where "snd ta = Fire dr dc" by (cases "snd ta") simp_all
    then have "step (fst ta) (snd ta) w = w"
      using Cons.prems by (simp add: fire_arrow_def)
    then show ?thesis using True Cons.IH [OF Cons.prems] by simp
  next
    case False
    have "arrow_used (step (fst ta) (snd ta) w)"
      using Cons.prems by (rule step_arrow_used)
    from Cons.IH [OF this] show ?thesis using False by simp
  qed
qed

lemma move_score:
  "score (move now dx dy w) =
     (if game_state w = PLAYING \<and> in_bounds (grid_size w) (target w dx dy)
         \<and> \<not> lethal w (target w dx dy) \<and> target w dx dy \<notin> scored_cells w
      then score w + 10 else score w)"
  by (simp add: move_unfold win_check_fields check_danger_fields visit_bonus_score
        target_def lethal_def)

lemma move_scored_eq:
  "scored_cells (move now dx dy w) =
     (if game_state w = PLAYING \<and> in_bounds (grid_size w) (target w dx dy)
         \<and> \<not> lethal w (target w dx dy) \<and> target w dx dy \<notin> scored_cells w
      then insert (target w dx dy) (scored_cells w) else scored_cells w)"
  by (simp add: move_unfold win_check_fields check_danger_fields visit_bonus_scored_eq
        target_def lethal_def)

lemma init_board_fresh:
  assumes "init_board w s = Returned (w', rest)"
  shows "agent_pos w' = (0, 0)" "scored_cells w' = {(0, 0)}" "score w' = 0"
    "\<not> arrow_used w'" "wumpus_alive w'" "\<not> has_gold w'" "arrow w' = None"
    "game_state w' = game_state w" "high_score w' = high_score w"
  using assms unfolding init_board_def Let_def
  by (auto split: outcome.splits)

lemma restart_Returned:
  assumes "restart w s = Returned (w', rest)"
  shows "game_state w' = PLAYING" "agent_pos w' = (0, 0)" "scored_cells w' = {(0, 0)}"
    "score w' = 0" "high_score w' = high_score w"
proof -
  from assms obtain w1 where
    i: "init_board w s = Returned (w1, rest)"
    and w': "w' = w1\<lparr>high_score := high_score w, game_state := PLAYING\<rparr>"
    unfolding restart_def Let_def by (auto split: outcome.splits)
  note f = init_board_fresh [OF i]
  show "game_state w' = PLAYING" by (simp add: w')
  show "agent_pos w' = (0, 0)" by (simp add: w' f)
  show "scored_cells w' = {(0, 0)}" by (simp add: w' f)
  show "score w' = 0" by (simp add: w' f)
  show "high_score w' = high_score w" by (simp add: w')
qed

lemma adjacent_mem:
  "(a, b) \<in> set (adjacent w (x, y)) \<longleftrightarrow>
     (a = x - 1 \<and> b = y \<and> 0 < x) \<or> (a = x + 1 \<and> b = y \<and> x < grid_size w - 1)
     \<or> (a = x \<and> b = y - 1 \<and> 0 < y) \<or> (a = x \<and> b = y + 1 \<and> y < grid_size w - 1)"
  by (auto simp: adjacent_def Let_def)

lemma orth_adjacent_iff:
  "orth_adjacent (x, y) (a, b) \<longleftrightarrow>
     (a = x - 1 \<and> b = y) \<or> (a = x + 1 \<and> b = y) \<or> (a = x \<and> b = y - 1) \<or> (a = x \<and> b = y + 1)"
  unfolding orth_adjacent_def fst_conv snd_conv by linarith

lemma adjacent_iff:
  assumes "in_bounds (grid_size w) p"
  shows "c \<in> set (adjacent w p) \<longleftrightarrow> orth_adjacent p c \<and> in_bounds (grid_size w) c"
proof -
  obtain x y where p: "p = (x, y)" by (cases p)
  obtain a b where c: "c = (a, b)" by (cases c)
  have xy: "0 \<le> x" "x < grid_size w" "0 \<le> y" "y < grid_size w"
    using assms by (simp_all add: p in_bounds_def)
  show ?thesis
    unfolding p c adjacent_mem orth_adjacent_iff in_bounds_def fst_conv snd_conv
    using xy by linarith
qed

text \<open>The states that the engine reaches satisfy \<open>arrow_inv\<close> and \<open>agent_on_grid\<close>: both hold
  when \<open>_init_board\<close> returns and are kept by every engine call.\<close>

lemma move_agent_pos:
  "agent_pos (move now dx dy w) =
     (if game_state w = PLAYING \<and> in_bounds (grid_size w) (target w dx dy)
      then target w dx dy else agent_pos w)"
  by (simp add: move_unfold win_check_fields check_danger_fields visit_bonus_fields target_def)

lemma step_agent_on_grid: "agent_on_grid w \<Longrightarrow> agent_on_grid (step now a w)"
  by (cases a)
     (simp_all add: agent_on_grid_def move_agent_pos move_fields grab_fields fire_arrow_fields
        update_arrow_fields enter_aim_mode_def cancel_aim_def)

lemma run_agent_on_grid: "agent_on_grid w \<Longrightarrow> agent_on_grid (run tas w)"
  by (induction tas arbitrary: w) (simp_all add: step_agent_on_grid)

lemma update_arrow_inv: "arrow_inv w \<Longrightarrow> arrow_inv (update_arrow now w)"
  by (cases now w rule: update_arrow_cases)
     (simp_all add: arrow_inv_def update_arrow_advance update_arrow_hit update_arrow_miss
        update_arrow_fly add_score_fields)

lemma fire_arrow_inv: "arrow_inv w \<Longrightarrow> arrow_inv (fire_arrow now dr dc w)"
  by (simp add: arrow_inv_def fire_arrow_def Let_def new_arrow_def)

lemma step_arrow_inv: "arrow_inv w \<Longrightarrow> arrow_inv (step now a w)"
  by (cases a)
     (simp_all add: update_arrow_inv fire_arrow_inv,
      simp_all add: arrow_inv_def move_fields grab_fields enter_aim_mode_def cancel_aim_def)

lemma run_arrow_inv: "arrow_inv w \<Longrightarrow> arrow_inv (run tas w)"
  by (induction tas arbitrary: w) (simp_all add: step_arrow_inv)

lemma arrow_inv_in_flight:
  "arrow_inv w \<Longrightarrow> arrow w = Some a \<Longrightarrow> \<not> arrow_done a \<Longrightarrow> \<not> arrow_hit_wumpus a"
  by (auto simp: arrow_inv_def)

subsection \<open>Float arithmetic\<close>

text \<open>Rounding leaves a float in the format's form as it is; so adding a zero to a
  number that is not zero gives that number.\<close>

lemma bits_le: "n < 2 ^ k \<Longrightarrow> bits n \<le> k"
proof (induction k arbitrary: n)
  case 0
  then show ?case by (subst bits.simps) simp
next
  case (Suc k)
  show ?case
  proof (cases "n = 0")
    case True
    then show ?thesis by (subst bits.simps) simp
  next
    case False
    have "n div 2 < 2 ^ k" using Suc.prems by simp
    then have "bits (n div 2) \<le> k" by (rule Suc.IH)
    then show ?thesis using False by (subst bits.simps) simp
  qed
qed

lemma bits_gt: "2 ^ k \<le> n \<Longrightarrow> k < bits n"
proof (induction k arbitrary: n)
  case 0
  then have "n \<noteq> 0" by simp
  then show ?case by (subst bits.simps) simp
next
  case (Suc k)
  have "(0::nat) < 2 ^ Suc k" by simp
  with Suc.prems have n: "n \<noteq> 0" by linarith
  have "2 ^ k \<le> n div 2" using Suc.prems by simp
  then have "k < bits (n div 2)" by (rule Suc.IH)
  then show ?case using n by (subst bits.simps) simp
qed

lemma round_fin_canonical:
  assumes "canonical (Fin s m e)"
  shows "round_fin s m e = Fin s m e"
proof (cases "m = 0")
  case True
  then show ?thesis using assms by (simp add: round_fin_def)
next
  case False
  from assms have m: "m < 2 ^ 53" and e: "- 1074 \<le> e" "e \<le> 971"
    and c: "e = - 1074 \<or> 2 ^ 52 \<le> m" by simp_all
  have b: "bits m \<le> 53" using m by (rule bits_le)
  have ex: "max (e + int (bits m) - 53) (- 1074) = e"
  proof (cases "2 ^ 52 \<le> m")
    case True
    then have "52 < bits m" by (rule bits_gt)
    with b have "bits m = 53" by simp
    then show ?thesis using e by simp
  next
    case False
    with c have "e = - 1074" by simp
    then show ?thesis using b by simp
  qed
  have "m \<noteq> 2 ^ 53" using m by simp
  then show ?thesis
    using False e by (simp add: round_fin_def ex Let_def)
qed

lemma fadd_zero:
  assumes "canonical (Fin s m e)" "m \<noteq> 0"
  shows "fadd (Fin s m e) f_zero = Fin s m e" and "fadd f_zero (Fin s m e) = Fin s m e"
  using assms round_fin_canonical [OF assms(1)] by (simp_all add: f_zero_def del: canonical.simps)

subsection \<open>The floats of the projectile\<close>

text \<open>The literal \<open>0.18\<close>: the float chosen is in the format's form and lies within half a
  unit in the last place (\<open>2^-56\<close>) of 18/100, strictly, so it is the nearest float.\<close>

lemma f_0_18_nearest:
  "canonical f_0_18 \<and> \<bar>18 / 100 - valof f_0_18\<bar> < 1 / 2 ^ 56"
  by (simp add: f_0_18_def signed_def)

lemma f_one_value: "canonical f_one \<and> valof f_one = 1"
  by (simp add: f_one_def signed_def)

lemma f_zero_value: "canonical f_zero \<and> valof f_zero = 0"
  by (simp add: f_zero_def signed_def)

text \<open>The values that \<open>frac\<close> takes from \<open>0.0\<close> under repeated \<open>frac += 0.18\<close>: the floats
  \<open>0.18\<close>, \<open>0.36\<close>, \<open>0.54\<close>, \<open>0.72\<close>, \<open>0.8999999999999999\<close> and
  \<open>1.0799999999999998\<close>. The sums to \<open>0.54\<close>, \<open>0.8999999999999999\<close> and
  \<open>1.0799999999999998\<close> are rounded.\<close>

lemma fadd_Fin_eval:
  assumes "m1 \<noteq> 0" "m2 \<noteq> 0"
    and "A = signed s1 m1 * 2 ^ nat (e1 - min e1 e2) + signed s2 m2 * 2 ^ nat (e2 - min e1 e2)"
    and "A \<noteq> 0"
  shows "fadd (Fin s1 m1 e1) (Fin s2 m2 e2) = round_fin (A < 0) (nat \<bar>A\<bar>) (min e1 e2)"
  using assms by (simp add: Let_def)

lemma frac_sum_1: "fadd f_zero f_0_18 = Fin False 6485183463413514 (- 55)"
  by (simp add: f_zero_def f_0_18_def round_fin_def Let_def bits.simps)

lemma frac_sum_2:
  "fadd (Fin False 6485183463413514 (- 55)) f_0_18 = Fin False 6485183463413514 (- 54)"
proof -
  have "fadd (Fin False 6485183463413514 (- 55)) (Fin False 6485183463413514 (- 55))
      = round_fin (12970366926827028 < (0::int)) (nat \<bar>12970366926827028\<bar>) (min (- 55) (- 55))"
    by (rule fadd_Fin_eval) (simp_all add: signed_def)
  also have "\<dots> = Fin False 6485183463413514 (- 54)"
    by (simp add: round_fin_def Let_def bits.simps)
  finally show ?thesis by (simp add: f_0_18_def)
qed

lemma frac_sum_3:
  "fadd (Fin False 6485183463413514 (- 54)) f_0_18 = Fin False 4863887597560136 (- 53)"
proof -
  have "fadd (Fin False 6485183463413514 (- 54)) (Fin False 6485183463413514 (- 55))
      = round_fin (19455550390240542 < (0::int)) (nat \<bar>19455550390240542\<bar>) (min (- 54) (- 55))"
    by (rule fadd_Fin_eval) (simp_all add: signed_def)
  also have "\<dots> = Fin False 4863887597560136 (- 53)"
    by (simp add: round_fin_def Let_def bits.simps)
  finally show ?thesis by (simp add: f_0_18_def)
qed

lemma frac_sum_4:
  "fadd (Fin False 4863887597560136 (- 53)) f_0_18 = Fin False 6485183463413514 (- 53)"
proof -
  have "fadd (Fin False 4863887597560136 (- 53)) (Fin False 6485183463413514 (- 55))
      = round_fin (25940733853654058 < (0::int)) (nat \<bar>25940733853654058\<bar>) (min (- 53) (- 55))"
    by (rule fadd_Fin_eval) (simp_all add: signed_def)
  also have "\<dots> = Fin False 6485183463413514 (- 53)"
    by (simp add: round_fin_def Let_def bits.simps)
  finally show ?thesis by (simp add: f_0_18_def)
qed

lemma frac_sum_5:
  "fadd (Fin False 6485183463413514 (- 53)) f_0_18 = Fin False 8106479329266892 (- 53)"
proof -
  have "fadd (Fin False 6485183463413514 (- 53)) (Fin False 6485183463413514 (- 55))
      = round_fin (32425917317067570 < (0::int)) (nat \<bar>32425917317067570\<bar>) (min (- 53) (- 55))"
    by (rule fadd_Fin_eval) (simp_all add: signed_def)
  also have "\<dots> = Fin False 8106479329266892 (- 53)"
    by (simp add: round_fin_def Let_def bits.simps)
  finally show ?thesis by (simp add: f_0_18_def)
qed

lemma frac_sum_6:
  "fadd (Fin False 8106479329266892 (- 53)) f_0_18 = Fin False 4863887597560135 (- 52)"
proof -
  have "fadd (Fin False 8106479329266892 (- 53)) (Fin False 6485183463413514 (- 55))
      = round_fin (38911100780481082 < (0::int)) (nat \<bar>38911100780481082\<bar>) (min (- 53) (- 55))"
    by (rule fadd_Fin_eval) (simp_all add: signed_def)
  also have "\<dots> = Fin False 4863887597560135 (- 52)"
    by (simp add: round_fin_def Let_def bits.simps)
  finally show ?thesis by (simp add: f_0_18_def)
qed

lemma frac_below_one:
  "\<not> fge f_zero f_one"
  "\<not> fge (Fin False 6485183463413514 (- 55)) f_one"
  "\<not> fge (Fin False 6485183463413514 (- 54)) f_one"
  "\<not> fge (Fin False 4863887597560136 (- 53)) f_one"
  "\<not> fge (Fin False 6485183463413514 (- 53)) f_one"
  "\<not> fge (Fin False 8106479329266892 (- 53)) f_one"
  by (simp_all add: f_zero_def f_one_def signed_def Let_def)

lemma frac_crosses: "fge (Fin False 4863887597560135 (- 52)) f_one"
  by (simp add: f_one_def signed_def Let_def)

lemma frac_after_Suc_vals:
  "frac_after (Suc 0) = Fin False 6485183463413514 (- 55)"
  "frac_after (Suc (Suc 0)) = Fin False 6485183463413514 (- 54)"
  "frac_after (Suc (Suc (Suc 0))) = Fin False 4863887597560136 (- 53)"
  "frac_after (Suc (Suc (Suc (Suc 0)))) = Fin False 6485183463413514 (- 53)"
  "frac_after (Suc (Suc (Suc (Suc (Suc 0))))) = Fin False 8106479329266892 (- 53)"
  "frac_after (Suc (Suc (Suc (Suc (Suc (Suc 0)))))) = Fin False 4863887597560135 (- 52)"
  by (simp_all add: frac_sum_1 frac_sum_2 frac_sum_3 frac_sum_4 frac_sum_5 frac_sum_6)

lemma small_numerals:
  "(1::nat) = Suc 0" "(2::nat) = Suc (Suc 0)" "(3::nat) = Suc (Suc (Suc 0))"
  "(4::nat) = Suc (Suc (Suc (Suc 0)))" "(5::nat) = Suc (Suc (Suc (Suc (Suc 0))))"
  "(6::nat) = Suc (Suc (Suc (Suc (Suc (Suc 0)))))"
  by simp_all

lemma frac_after_vals:
  "frac_after 0 = f_zero"
  "frac_after 1 = Fin False 6485183463413514 (- 55)"
  "frac_after 2 = Fin False 6485183463413514 (- 54)"
  "frac_after 3 = Fin False 4863887597560136 (- 53)"
  "frac_after 4 = Fin False 6485183463413514 (- 53)"
  "frac_after 5 = Fin False 8106479329266892 (- 53)"
  "frac_after 6 = Fin False 4863887597560135 (- 52)"
  by (simp_all only: small_numerals frac_after.simps(1) frac_after_Suc_vals)

lemma frac_after_6_unfold: "frac_after 6 = fadd (frac_after 5) f_0_18"
  by (simp only: small_numerals frac_after.simps(2))

lemma frac_after_below: "n \<le> 5 \<Longrightarrow> \<not> fge (frac_after n) f_one"
proof -
  assume "n \<le> 5"
  then have "n = 0 \<or> n = 1 \<or> n = 2 \<or> n = 3 \<or> n = 4 \<or> n = 5" by linarith
  then show ?thesis
    by (elim disjE) (simp_all only: frac_after_vals frac_below_one not_False_eq_True)
qed

lemma frac_after_6: "fge (frac_after 6) f_one"
  by (simp add: frac_after_vals frac_crosses)

text \<open>A check of the rounding on another path: ten additions of the float \<open>0.1\<close> to \<open>0.0\<close>
  give the float \<open>0.9999999999999999\<close>, which is not \<open>>= 1.0\<close> (in exact arithmetic the sum
  would be 1).\<close>

lemma ten_tenths:
  "fadd (fadd (fadd (fadd (fadd (fadd (fadd (fadd (fadd (fadd f_zero
      (Fin False 7205759403792794 (- 56)))
      (Fin False 7205759403792794 (- 56)))
      (Fin False 7205759403792794 (- 56)))
      (Fin False 7205759403792794 (- 56)))
      (Fin False 7205759403792794 (- 56)))
      (Fin False 7205759403792794 (- 56)))
      (Fin False 7205759403792794 (- 56)))
      (Fin False 7205759403792794 (- 56)))
      (Fin False 7205759403792794 (- 56)))
      (Fin False 7205759403792794 (- 56))
     = Fin False 9007199254740991 (- 53)"
  (is "?lhs = _")
  and "\<not> fge (Fin False 9007199254740991 (- 53)) f_one"
proof -
  let ?t = "Fin False 7205759403792794 (- 56)"
  have s1: "fadd (f_zero) ?t = ?t"
    by (simp add: f_zero_def round_fin_def Let_def bits.simps)
  have s2: "fadd (Fin False 7205759403792794 (- 56)) ?t = Fin False 7205759403792794 (- 55)"
  proof -
    have "fadd (Fin False 7205759403792794 (- 56)) (Fin False 7205759403792794 (- 56))
        = round_fin (14411518807585588 < (0::int)) (nat \<bar>14411518807585588\<bar>) (min (- 56) (- 56))"
      by (rule fadd_Fin_eval) (simp_all add: signed_def)
    also have "\<dots> = Fin False 7205759403792794 (- 55)"
      by (simp add: round_fin_def Let_def bits.simps)
    finally show ?thesis .
  qed
  have s3: "fadd (Fin False 7205759403792794 (- 55)) ?t = Fin False 5404319552844596 (- 54)"
  proof -
    have "fadd (Fin False 7205759403792794 (- 55)) (Fin False 7205759403792794 (- 56))
        = round_fin (21617278211378382 < (0::int)) (nat \<bar>21617278211378382\<bar>) (min (- 55) (- 56))"
      by (rule fadd_Fin_eval) (simp_all add: signed_def)
    also have "\<dots> = Fin False 5404319552844596 (- 54)"
      by (simp add: round_fin_def Let_def bits.simps)
    finally show ?thesis .
  qed
  have s4: "fadd (Fin False 5404319552844596 (- 54)) ?t = Fin False 7205759403792794 (- 54)"
  proof -
    have "fadd (Fin False 5404319552844596 (- 54)) (Fin False 7205759403792794 (- 56))
        = round_fin (28823037615171178 < (0::int)) (nat \<bar>28823037615171178\<bar>) (min (- 54) (- 56))"
      by (rule fadd_Fin_eval) (simp_all add: signed_def)
    also have "\<dots> = Fin False 7205759403792794 (- 54)"
      by (simp add: round_fin_def Let_def bits.simps)
    finally show ?thesis .
  qed
  have s5: "fadd (Fin False 7205759403792794 (- 54)) ?t = Fin False 4503599627370496 (- 53)"
  proof -
    have "fadd (Fin False 7205759403792794 (- 54)) (Fin False 7205759403792794 (- 56))
        = round_fin (36028797018963970 < (0::int)) (nat \<bar>36028797018963970\<bar>) (min (- 54) (- 56))"
      by (rule fadd_Fin_eval) (simp_all add: signed_def)
    also have "\<dots> = Fin False 4503599627370496 (- 53)"
      by (simp add: round_fin_def Let_def bits.simps)
    finally show ?thesis .
  qed
  have s6: "fadd (Fin False 4503599627370496 (- 53)) ?t = Fin False 5404319552844595 (- 53)"
  proof -
    have "fadd (Fin False 4503599627370496 (- 53)) (Fin False 7205759403792794 (- 56))
        = round_fin (43234556422756762 < (0::int)) (nat \<bar>43234556422756762\<bar>) (min (- 53) (- 56))"
      by (rule fadd_Fin_eval) (simp_all add: signed_def)
    also have "\<dots> = Fin False 5404319552844595 (- 53)"
      by (simp add: round_fin_def Let_def bits.simps)
    finally show ?thesis .
  qed
  have s7: "fadd (Fin False 5404319552844595 (- 53)) ?t = Fin False 6305039478318694 (- 53)"
  proof -
    have "fadd (Fin False 5404319552844595 (- 53)) (Fin False 7205759403792794 (- 56))
        = round_fin (50440315826549554 < (0::int)) (nat \<bar>50440315826549554\<bar>) (min (- 53) (- 56))"
      by (rule fadd_Fin_eval) (simp_all add: signed_def)
    also have "\<dots> = Fin False 6305039478318694 (- 53)"
      by (simp add: round_fin_def Let_def bits.simps)
    finally show ?thesis .
  qed
  have s8: "fadd (Fin False 6305039478318694 (- 53)) ?t = Fin False 7205759403792793 (- 53)"
  proof -
    have "fadd (Fin False 6305039478318694 (- 53)) (Fin False 7205759403792794 (- 56))
        = round_fin (57646075230342346 < (0::int)) (nat \<bar>57646075230342346\<bar>) (min (- 53) (- 56))"
      by (rule fadd_Fin_eval) (simp_all add: signed_def)
    also have "\<dots> = Fin False 7205759403792793 (- 53)"
      by (simp add: round_fin_def Let_def bits.simps)
    finally show ?thesis .
  qed
  have s9: "fadd (Fin False 7205759403792793 (- 53)) ?t = Fin False 8106479329266892 (- 53)"
  proof -
    have "fadd (Fin False 7205759403792793 (- 53)) (Fin False 7205759403792794 (- 56))
        = round_fin (64851834634135138 < (0::int)) (nat \<bar>64851834634135138\<bar>) (min (- 53) (- 56))"
      by (rule fadd_Fin_eval) (simp_all add: signed_def)
    also have "\<dots> = Fin False 8106479329266892 (- 53)"
      by (simp add: round_fin_def Let_def bits.simps)
    finally show ?thesis .
  qed
  have s10: "fadd (Fin False 8106479329266892 (- 53)) ?t = Fin False 9007199254740991 (- 53)"
  proof -
    have "fadd (Fin False 8106479329266892 (- 53)) (Fin False 7205759403792794 (- 56))
        = round_fin (72057594037927930 < (0::int)) (nat \<bar>72057594037927930\<bar>) (min (- 53) (- 56))"
      by (rule fadd_Fin_eval) (simp_all add: signed_def)
    also have "\<dots> = Fin False 9007199254740991 (- 53)"
      by (simp add: round_fin_def Let_def bits.simps)
    finally show ?thesis .
  qed
  show "?lhs = Fin False 9007199254740991 (- 53)"
    by (simp only: s1 s2 s3 s4 s5 s6 s7 s8 s9 s10)
  show "\<not> fge (Fin False 9007199254740991 (- 53)) f_one"
    by (simp add: f_one_def signed_def Let_def)
qed

text \<open>A projectile as \<open>fire_arrow\<close> creates it is advanced by the first five simulation
  steps and crosses into the next cell at the sixth.\<close>

lemma tick_n_Suc_right: "tick_n (Suc n) now w = update_arrow now (tick_n n now w)"
  by (induction n arbitrary: w) simp_all

lemma ticks_from_zero:
  assumes "arrow w = Some a" "\<not> arrow_done a" "arrow_frac a = f_zero" "arrow_speed a = f_0_18"
  shows "n \<le> 5 \<Longrightarrow> tick_n n now w = w\<lparr>arrow := Some (a\<lparr>arrow_frac := frac_after n\<rparr>)\<rparr>"
proof (induction n)
  case 0
  have "a\<lparr>arrow_frac := f_zero\<rparr> = a" using assms(3) by simp
  then show ?case using assms(1) by simp
next
  case (Suc n)
  let ?a = "a\<lparr>arrow_frac := frac_after n\<rparr>"
  let ?w = "w\<lparr>arrow := Some ?a\<rparr>"
  have tn: "tick_n n now w = ?w" using Suc by simp
  have below: "\<not> fge (fadd (frac_after n) (arrow_speed a)) f_one"
    using frac_after_below [of "Suc n"] Suc.prems assms(4) by simp
  have "update_arrow now ?w = ?w\<lparr>arrow := Some (?a\<lparr>arrow_frac := fadd (arrow_frac ?a) (arrow_speed ?a)\<rparr>)\<rparr>"
    by (rule update_arrow_advance) (simp_all add: assms(2) below)
  then show ?case
    by (simp add: tick_n_Suc_right tn assms(4) del: tick_n.simps)
qed

subsection \<open>Movement\<close>

text \<open>
  Claim C1. In the state \<open>PLAYING\<close>, for every direction \<open>(dr, dc)\<close>: a move whose target
  cell is outside the grid leaves the whole state unchanged; a move whose target is inside
  the grid puts the agent on the target and adds the target to \<open>visited\<close>; then, if the
  target is a pit or the cell of the live Wumpus, the agent is dead and the state is
  \<open>GAME_OVER\<close>; otherwise, if the agent carries the gold and the target is \<open>(0, 0)\<close>, the
  state is \<open>WIN\<close>; otherwise the game goes on.
\<close>

theorem move_semantics:
  assumes "game_state w = PLAYING"
  shows "(\<not> in_bounds (grid_size w) (target w dr dc) \<longrightarrow> move now dr dc w = w)
       \<and> (in_bounds (grid_size w) (target w dr dc) \<longrightarrow>
            agent_pos (move now dr dc w) = target w dr dc
          \<and> visited (move now dr dc w) = insert (target w dr dc) (visited w)
          \<and> (lethal w (target w dr dc) \<longrightarrow>
                \<not> agent_alive (move now dr dc w) \<and> game_state (move now dr dc w) = GAME_OVER)
          \<and> (\<not> lethal w (target w dr dc) \<and> has_gold w \<and> target w dr dc = (0, 0) \<longrightarrow>
                game_state (move now dr dc w) = WIN)
          \<and> (\<not> lethal w (target w dr dc) \<and> \<not> (has_gold w \<and> target w dr dc = (0, 0)) \<longrightarrow>
                game_state (move now dr dc w) = PLAYING
              \<and> agent_alive (move now dr dc w) = agent_alive w))"
proof -
  define t where "t = target w dr dc"
  define w1 where "w1 = visit_bonus now t (w\<lparr>agent_pos := t, visited := insert t (visited w)\<rparr>)"
  have w1: "agent_pos w1 = t" "visited w1 = insert t (visited w)" "pits w1 = pits w"
    "wumpus w1 = wumpus w" "wumpus_alive w1 = wumpus_alive w" "has_gold w1 = has_gold w"
    "game_state w1 = PLAYING" "agent_alive w1 = agent_alive w"
    using assms by (simp_all add: w1_def visit_bonus_fields)
  have out: "move now dr dc w = w" if "\<not> in_bounds (grid_size w) t"
    using that assms by (simp add: move_unfold t_def target_def)
  have inb: "move now dr dc w = win_check (check_danger w1)" if "in_bounds (grid_size w) t"
    using that assms by (simp add: move_unfold t_def w1_def target_def)
  have pos: "agent_pos (win_check (check_danger w1)) = t"
    by (simp add: win_check_fields check_danger_fields w1)
  have vis: "visited (win_check (check_danger w1)) = insert t (visited w)"
    by (simp add: win_check_fields check_danger_fields w1)
  have dead: "\<not> agent_alive (win_check (check_danger w1)) \<and>
      game_state (win_check (check_danger w1)) = GAME_OVER"
    if "lethal w t"
    using that by (auto simp: win_check_def check_danger_def w1 lethal_def)
  have won: "game_state (win_check (check_danger w1)) = WIN"
    if "\<not> lethal w t" "has_gold w \<and> t = (0, 0)"
    using that by (auto simp: win_check_def check_danger_def w1 lethal_def)
  have stay: "game_state (win_check (check_danger w1)) = PLAYING \<and>
      agent_alive (win_check (check_danger w1)) = agent_alive w"
    if "\<not> lethal w t" "\<not> (has_gold w \<and> t = (0, 0))"
    using that by (auto simp: win_check_def check_danger_def w1 lethal_def)
  show ?thesis
    unfolding t_def [symmetric]
    using out inb pos vis dead won stay by auto
qed

theorem move_semantics_witness:
  "game_state example_world = PLAYING
   \<and> in_bounds (grid_size example_world) (target example_world 0 1)
   \<and> agent_pos (move ''2024-05-01 10:00:00'' 0 1 example_world) = (0, 1)
   \<and> visited (move ''2024-05-01 10:00:00'' 0 1 example_world) = {(0, 1), (0, 0)}
   \<and> game_state (move ''2024-05-01 10:00:00'' 0 1 example_world) = PLAYING"
proof -
  have h: "game_state example_world = PLAYING"
    by (simp add: example_world_def)
  have t: "target example_world 0 1 = (0, 1)"
    by (simp add: target_def example_world_def)
  have b: "in_bounds (grid_size example_world) (0, 1)"
    by (simp add: in_bounds_def example_world_def)
  have l: "\<not> lethal example_world (0, 1)"
    by (simp add: lethal_def example_world_def)
  have v: "visited example_world = {(0, 0)}" "\<not> has_gold example_world"
    by (simp_all add: example_world_def)
  show ?thesis
    using move_semantics [OF h, of 0 1 "''2024-05-01 10:00:00''"] h b l v
    unfolding t by simp
qed

subsection \<open>The safe-visit bonus\<close>

text \<open>
  Claim C2. The bonus of 10 points is given at most once per cell in a game instance: a
  valid move onto a safe cell (no pit, not the live Wumpus) that is not in \<open>scored_cells\<close>
  adds exactly 10 and puts the cell into \<open>scored_cells\<close>; a move onto a cell that is in
  \<open>scored_cells\<close> leaves the score as it is; \<open>scored_cells\<close> never loses a cell during the
  instance, so a cell once scored gives nothing on any later move onto it; and \<open>(0, 0)\<close>
  is in \<open>scored_cells\<close> when the game starts, so that after one valid safe move from the
  initial state the score is exactly 10.
\<close>

theorem safe_visit_bonus_once:
  "(game_state w = PLAYING \<and> in_bounds (grid_size w) (target w dr dc)
      \<and> \<not> lethal w (target w dr dc) \<and> target w dr dc \<notin> scored_cells w \<longrightarrow>
        score (move now dr dc w) = score w + 10
      \<and> scored_cells (move now dr dc w) = insert (target w dr dc) (scored_cells w))
   \<and> (target w dr dc \<in> scored_cells w \<longrightarrow> score (move now dr dc w) = score w)
   \<and> (\<forall>tas. scored_cells w \<subseteq> scored_cells (run tas w))
   \<and> (\<forall>tas now' dx dy.
         target w dr dc \<in> scored_cells w \<and> target (run tas w) dx dy = target w dr dc \<longrightarrow>
           score (move now' dx dy (run tas w)) = score (run tas w))
   \<and> (\<forall>w0 samples rest.
         restart w0 samples = Returned (w, rest) \<and> (dr, dc) \<noteq> (0, 0)
         \<and> in_bounds (grid_size w) (dr, dc) \<and> \<not> lethal w (dr, dc) \<longrightarrow>
           (0, 0) \<in> scored_cells w \<and> score w = 0 \<and> score (move now dr dc w) = 10)"
proof (intro conjI allI impI)
  assume "game_state w = PLAYING \<and> in_bounds (grid_size w) (target w dr dc)
      \<and> \<not> lethal w (target w dr dc) \<and> target w dr dc \<notin> scored_cells w"
  then show "score (move now dr dc w) = score w + 10"
    and "scored_cells (move now dr dc w) = insert (target w dr dc) (scored_cells w)"
    by (simp_all add: move_score move_scored_eq)
next
  assume "target w dr dc \<in> scored_cells w"
  then show "score (move now dr dc w) = score w"
    by (simp add: move_score)
next
  fix tas
  show "scored_cells w \<subseteq> scored_cells (run tas w)"
    by (rule run_scored)
next
  fix tas now' dx dy
  assume "target w dr dc \<in> scored_cells w \<and> target (run tas w) dx dy = target w dr dc"
  then have "target (run tas w) dx dy \<in> scored_cells (run tas w)"
    using run_scored [of w tas] by auto
  then show "score (move now' dx dy (run tas w)) = score (run tas w)"
    by (simp add: move_score)
next
  fix w0 samples rest
  assume h: "restart w0 samples = Returned (w, rest) \<and> (dr, dc) \<noteq> (0, 0)
         \<and> in_bounds (grid_size w) (dr, dc) \<and> \<not> lethal w (dr, dc)"
  then have r: "restart w0 samples = Returned (w, rest)" by simp
  note f = restart_Returned [OF r]
  have t: "target w dr dc = (dr, dc)" by (simp add: target_def f)
  show "(0, 0) \<in> scored_cells w" by (simp add: f)
  show "score w = 0" by (simp add: f)
  have "(dr, dc) \<notin> scored_cells w" using h by (simp add: f)
  then show "score (move now dr dc w) = 10"
    using h by (simp add: move_score t f)
qed

theorem safe_visit_bonus_once_witness:
  "restart example_world example_draws = Returned (example_world, [(2, 2)])
   \<and> game_state example_world = PLAYING
   \<and> in_bounds (grid_size example_world) (target example_world 0 1)
   \<and> \<not> lethal example_world (target example_world 0 1)
   \<and> target example_world 0 1 \<notin> scored_cells example_world
   \<and> score (move example_now 0 1 example_world) = 10
   \<and> scored_cells (move example_now 0 1 example_world) = {(0, 1), (0, 0)}"
proof -
  have r: "restart example_world example_draws = Returned (example_world, [(2, 2)])"
    by (simp add: restart_def init_board_def example_world_def example_draws_def
          numeral_eq_Suc)
  have h: "game_state example_world = PLAYING" "score example_world = 0"
    "scored_cells example_world = {(0, 0)}"
    by (simp_all add: example_world_def)
  have t: "target example_world 0 1 = (0, 1)"
    by (simp add: target_def example_world_def)
  have b: "in_bounds (grid_size example_world) (0, 1)"
    by (simp add: in_bounds_def example_world_def)
  have l: "\<not> lethal example_world (0, 1)"
    by (simp add: lethal_def example_world_def)
  show ?thesis
    using safe_visit_bonus_once [of example_world 0 1 example_now] r h b l
    unfolding t by simp
qed

subsection \<open>The arrow in flight\<close>

text \<open>
  Claim C3. \<open>fire_arrow\<close> creates the projectile on the agent's cell, heading in the
  direction given, with \<open>frac = 0.0\<close> and \<open>speed = 0.18\<close>, unresolved. For a projectile in
  flight (present, not resolved, and hence not marked as a hit: \<open>arrow_inv\<close> holds in
  every state the engine reaches, see \<open>run_arrow_inv\<close> and \<open>arrow_inv_in_flight\<close>), one
  simulation step replaces \<open>frac\<close> by the float sum \<open>frac + speed\<close> and changes nothing else
  as long as that sum is not \<open>>= 1.0\<close>. When the sum is \<open>>= 1.0\<close>, \<open>frac\<close> becomes \<open>0.0\<close> and
  the position moves by exactly one cell in the fired direction (the stored direction,
  which is the one given to \<open>fire_arrow\<close> and which no step changes); then, if the Wumpus is alive and the new cell is its cell, the projectile is
  resolved as a hit, the Wumpus is dead and stays dead for the rest of the instance, and
  300 points are awarded, shown at that cell; otherwise, if the new cell is outside the
  grid, the projectile is resolved as a miss and the score is unchanged; otherwise it
  stays in flight. A resolved or absent projectile is not stepped. From \<open>frac = 0.0\<close> the
  first five steps only advance \<open>frac\<close> (to the float \<open>0.8999999999999999\<close>) and the sixth
  crosses.
\<close>

theorem update_arrow_step:
  "(\<forall>a. arrow w = Some a \<and> \<not> arrow_done a \<and> \<not> arrow_hit_wumpus a \<longrightarrow>
      (\<not> fge (fadd (arrow_frac a) (arrow_speed a)) f_one \<longrightarrow>
         update_arrow now w = w\<lparr>arrow := Some (a\<lparr>arrow_frac := fadd (arrow_frac a) (arrow_speed a)\<rparr>)\<rparr>)
    \<and> (fge (fadd (arrow_frac a) (arrow_speed a)) f_one \<longrightarrow>
         (\<exists>a'. arrow (update_arrow now w) = Some a'
            \<and> arrow_frac a' = f_zero
            \<and> arrow_row a' = arrow_row a + arrow_dr a
            \<and> arrow_col a' = arrow_col a + arrow_dc a
            \<and> arrow_dr a' = arrow_dr a \<and> arrow_dc a' = arrow_dc a
            \<and> arrow_speed a' = arrow_speed a
            \<and> (wumpus_alive w \<and> (arrow_row a', arrow_col a') = wumpus w \<longrightarrow>
                  arrow_done a' \<and> arrow_hit_wumpus a'
                \<and> \<not> wumpus_alive (update_arrow now w)
                \<and> (\<forall>tas. \<not> wumpus_alive (run tas (update_arrow now w)))
                \<and> score (update_arrow now w) = score w + 300
                \<and> last (popups (update_arrow now w)) =
                     (fst (grid_to_screen w (arrow_row a') (arrow_col a')),
                      snd (grid_to_screen w (arrow_row a') (arrow_col a')) - 10,
                      300, 255, WIN_COL))
            \<and> (\<not> (wumpus_alive w \<and> (arrow_row a', arrow_col a') = wumpus w)
                 \<and> \<not> in_bounds (grid_size w) (arrow_row a', arrow_col a') \<longrightarrow>
                  arrow_done a' \<and> \<not> arrow_hit_wumpus a'
                \<and> score (update_arrow now w) = score w
                \<and> wumpus_alive (update_arrow now w) = wumpus_alive w)
            \<and> (\<not> (wumpus_alive w \<and> (arrow_row a', arrow_col a') = wumpus w)
                 \<and> in_bounds (grid_size w) (arrow_row a', arrow_col a') \<longrightarrow>
                  \<not> arrow_done a' \<and> \<not> arrow_hit_wumpus a'
                \<and> update_arrow now w = w\<lparr>arrow := Some a'\<rparr>))))
   \<and> (arrow w = None \<or> (\<exists>a. arrow w = Some a \<and> arrow_done a) \<longrightarrow> update_arrow now w = w)
   \<and> (\<forall>dr dc. \<not> arrow_used w \<longrightarrow>
         arrow (fire_arrow now dr dc w) =
           Some \<lparr>arrow_row = fst (agent_pos w), arrow_col = snd (agent_pos w),
                 arrow_dr = dr, arrow_dc = dc, arrow_frac = f_zero, arrow_speed = f_0_18,
                 arrow_done = False, arrow_hit_wumpus = False\<rparr>)
   \<and> (\<forall>a. arrow w = Some a \<and> \<not> arrow_done a \<and> arrow_frac a = f_zero
           \<and> arrow_speed a = f_0_18 \<longrightarrow>
         (\<forall>n \<le> 5. tick_n n now w = w\<lparr>arrow := Some (a\<lparr>arrow_frac := frac_after n\<rparr>)\<rparr>
            \<and> \<not> fge (frac_after n) f_one)
         \<and> frac_after 5 = Fin False 8106479329266892 (- 53)
         \<and> fge (fadd (frac_after 5) f_0_18) f_one)"
  (is "(\<forall>a. ?H a \<longrightarrow> (\<not> ?X a \<longrightarrow> ?Adv a) \<and> (?X a \<longrightarrow> ?Cross a))
         \<and> ?Idle \<and> ?Fire \<and> ?Six")
proof -
  have flight: "(\<not> ?X a \<longrightarrow> ?Adv a) \<and> (?X a \<longrightarrow> ?Cross a)" if h: "?H a" for a
  proof -
    from h have a: "arrow w = Some a" "\<not> arrow_done a" and nh: "\<not> arrow_hit_wumpus a"
      by simp_all
    have adv: "?Adv a" if "\<not> ?X a"
      using a that by (rule update_arrow_advance)
    have cross: "?Cross a" if over: "?X a"
    proof -
      let ?r = "arrow_row a + arrow_dr a" and ?c = "arrow_col a + arrow_dc a"
      consider (hit) "wumpus_alive w" "(?r, ?c) = wumpus w"
        | (miss) "\<not> (wumpus_alive w \<and> (?r, ?c) = wumpus w)"
            "\<not> in_bounds (grid_size w) (?r, ?c)"
        | (fly) "\<not> (wumpus_alive w \<and> (?r, ?c) = wumpus w)"
            "in_bounds (grid_size w) (?r, ?c)"
        by blast
      then show ?thesis
      proof cases
        case hit
        let ?a' = "a\<lparr>arrow_row := ?r, arrow_col := ?c, arrow_frac := f_zero,
                      arrow_hit_wumpus := True, arrow_done := True\<rparr>"
        note u = update_arrow_hit [OF a over hit, of now]
        have arr: "arrow (update_arrow now w) = Some ?a'"
          by (simp add: u add_score_fields)
        have dead: "\<not> wumpus_alive (update_arrow now w)"
          by (simp add: u add_score_fields)
        have perm: "\<forall>tas. \<not> wumpus_alive (run tas (update_arrow now w))"
          using run_wumpus_dead [OF dead] by blast
        have sc: "score (update_arrow now w) = score w + 300"
          by (simp add: u add_score_fields)
        have pop: "last (popups (update_arrow now w)) =
            (fst (grid_to_screen w ?r ?c), snd (grid_to_screen w ?r ?c) - 10, 300, 255, WIN_COL)"
          by (simp add: u add_score_def Let_def grid_to_screen_def)
        show ?thesis
          by (rule exI [of _ ?a']) (simp add: arr dead perm sc pop hit)
      next
        case miss
        let ?a' = "a\<lparr>arrow_row := ?r, arrow_col := ?c, arrow_frac := f_zero, arrow_done := True\<rparr>"
        note u = update_arrow_miss [OF a over miss, of now]
        have arr: "arrow (update_arrow now w) = Some ?a'"
          by (simp add: u)
        have sc: "score (update_arrow now w) = score w"
          "wumpus_alive (update_arrow now w) = wumpus_alive w"
          by (simp_all add: u)
        show ?thesis
          using miss nh by (intro exI [of _ ?a']) (simp add: arr sc)
      next
        case fly
        let ?a' = "a\<lparr>arrow_row := ?r, arrow_col := ?c, arrow_frac := f_zero\<rparr>"
        note u = update_arrow_fly [OF a over fly, of now]
        have arr: "arrow (update_arrow now w) = Some ?a'"
          by (simp add: u)
        show ?thesis
          using fly nh a(2) by (intro exI [of _ ?a']) (simp add: arr u)
      qed
    qed
    from adv cross show ?thesis by blast
  qed
  have idle: ?Idle
    using update_arrow_idle by blast
  have fire: ?Fire
    by (simp add: fire_arrow_def Let_def add_score_fields new_arrow_def)
  have six: ?Six
  proof (intro allI impI conjI)
    fix a :: ArrowProjectile and n :: nat
    assume a: "arrow w = Some a \<and> \<not> arrow_done a \<and> arrow_frac a = f_zero
        \<and> arrow_speed a = f_0_18"
    assume n: "n \<le> 5"
    from a have a': "arrow w = Some a" "\<not> arrow_done a" "arrow_frac a = f_zero"
      "arrow_speed a = f_0_18" by simp_all
    show "tick_n n now w = w\<lparr>arrow := Some (a\<lparr>arrow_frac := frac_after n\<rparr>)\<rparr>"
      using a' n by (rule ticks_from_zero)
    show "\<not> fge (frac_after n) f_one"
      using n by (rule frac_after_below)
  next
    show "frac_after 5 = Fin False 8106479329266892 (- 53)"
      by (rule frac_after_vals)
    show "fge (fadd (frac_after 5) f_0_18) f_one"
      using frac_after_6 by (simp only: frac_after_6_unfold)
  qed
  from flight have "\<forall>a. ?H a \<longrightarrow> (\<not> ?X a \<longrightarrow> ?Adv a) \<and> (?X a \<longrightarrow> ?Cross a)"
    by (intro allI impI)
  with idle fire six show ?thesis
    by (intro conjI)
qed

theorem update_arrow_step_witness:
  "arrow example_flight = Some example_arrow
   \<and> \<not> arrow_done example_arrow \<and> \<not> arrow_hit_wumpus example_arrow
   \<and> fge (fadd (arrow_frac example_arrow) (arrow_speed example_arrow)) f_one
   \<and> wumpus_alive example_flight
   \<and> score example_flight = - 50
   \<and> score (update_arrow example_now example_flight) = 250
   \<and> \<not> wumpus_alive (update_arrow example_now example_flight)"
proof -
  have h: "arrow example_flight = Some example_arrow
      \<and> \<not> arrow_done example_arrow \<and> \<not> arrow_hit_wumpus example_arrow"
    by (simp add: example_flight_def example_arrow_def)
  have over: "fge (fadd (arrow_frac example_arrow) (arrow_speed example_arrow)) f_one"
    by (simp add: example_arrow_def frac_sum_6 frac_crosses)
  have w: "wumpus_alive example_flight" "wumpus example_flight = (0, 2)"
    "score example_flight = - 50"
    by (simp_all add: example_flight_def example_world_def)
  have next_cell: "arrow_row example_arrow + arrow_dr example_arrow = 0"
    "arrow_col example_arrow + arrow_dc example_arrow = 2"
    by (simp_all add: example_arrow_def)
  note s = update_arrow_step [of example_flight example_now, THEN conjunct1, THEN spec,
      of example_arrow, THEN mp, OF h, THEN conjunct2, THEN mp, OF over]
  then obtain a' :: ArrowProjectile where
    pos: "arrow_row a' = arrow_row example_arrow + arrow_dr example_arrow"
      "arrow_col a' = arrow_col example_arrow + arrow_dc example_arrow"
    and hit: "wumpus_alive example_flight \<and> (arrow_row a', arrow_col a') = wumpus example_flight
      \<longrightarrow> \<not> wumpus_alive (update_arrow example_now example_flight)
        \<and> score (update_arrow example_now example_flight) = score example_flight + 300"
    by blast
  have "(arrow_row a', arrow_col a') = wumpus example_flight"
    by (simp add: pos next_cell w)
  with hit w have "\<not> wumpus_alive (update_arrow example_now example_flight)"
    "score (update_arrow example_now example_flight) = 250"
    by simp_all
  with h over w show ?thesis by simp
qed

subsection \<open>Firing\<close>

text \<open>
  Claim C4. Firing costs 50 points, taken at the moment of firing: a first \<open>fire_arrow\<close>
  lowers the score by exactly 50, sets \<open>arrow_used\<close> and creates a projectile that is not
  yet resolved; once \<open>arrow_used\<close> is set, it stays set for the rest of the instance and
  every later \<open>fire_arrow\<close> leaves the state unchanged, so that a sequence of engine calls
  after a shot behaves as the sequence without its further shots: the cost is charged
  once and at most one arrow is fired. The resolution of the projectile changes the
  score by 0 (miss or still flying) or by 300 (hit); nothing gives the 50 points back.
\<close>

theorem fire_cost_once:
  "(\<not> arrow_used w \<longrightarrow>
       score (fire_arrow now dr dc w) = score w - 50
     \<and> arrow (fire_arrow now dr dc w)
          = Some (new_arrow (fst (agent_pos w)) (snd (agent_pos w)) dr dc)
     \<and> \<not> arrow_done (new_arrow (fst (agent_pos w)) (snd (agent_pos w)) dr dc))
   \<and> arrow_used (fire_arrow now dr dc w)
   \<and> (arrow_used w \<longrightarrow> fire_arrow now dr dc w = w)
   \<and> (\<forall>tas. arrow_used (run tas (fire_arrow now dr dc w))
         \<and> run tas (fire_arrow now dr dc w)
             = run (filter (\<lambda>ta. \<not> is_fire (snd ta)) tas) (fire_arrow now dr dc w))
   \<and> (\<forall>now'. score (update_arrow now' w) = score w
         \<or> score (update_arrow now' w) = score w + 300)"
proof (intro conjI allI impI)
  assume "\<not> arrow_used w"
  then show "score (fire_arrow now dr dc w) = score w - 50"
    and "arrow (fire_arrow now dr dc w)
          = Some (new_arrow (fst (agent_pos w)) (snd (agent_pos w)) dr dc)"
    by (simp_all add: fire_arrow_def Let_def add_score_fields)
  show "\<not> arrow_done (new_arrow (fst (agent_pos w)) (snd (agent_pos w)) dr dc)"
    by (simp add: new_arrow_def)
next
  show used: "arrow_used (fire_arrow now dr dc w)"
    by (rule fire_arrow_fields)
  fix tas
  show "arrow_used (run tas (fire_arrow now dr dc w))"
    using used by (rule run_arrow_used)
  show "run tas (fire_arrow now dr dc w)
          = run (filter (\<lambda>ta. \<not> is_fire (snd ta)) tas) (fire_arrow now dr dc w)"
    using used by (rule run_skip_fire)
next
  assume "arrow_used w"
  then show "fire_arrow now dr dc w = w"
    by (simp add: fire_arrow_def)
next
  fix now'
  show "score (update_arrow now' w) = score w \<or> score (update_arrow now' w) = score w + 300"
    by (rule update_arrow_score)
qed

theorem fire_cost_once_witness:
  "\<not> arrow_used example_world
   \<and> score (fire_arrow example_now 0 1 example_world) = - 50
   \<and> arrow_used (fire_arrow example_now 0 1 example_world)
   \<and> fire_arrow example_now 1 0 (fire_arrow example_now 0 1 example_world)
        = fire_arrow example_now 0 1 example_world"
proof -
  have h: "\<not> arrow_used example_world" "score example_world = 0"
    by (simp_all add: example_world_def)
  note a = fire_cost_once [of example_world example_now 0 1]
  note b = fire_cost_once [of "fire_arrow example_now 0 1 example_world" example_now 1 0]
  from a h have "score (fire_arrow example_now 0 1 example_world) = - 50"
    and u: "arrow_used (fire_arrow example_now 0 1 example_world)"
    by simp_all
  moreover from b u
  have "fire_arrow example_now 1 0 (fire_arrow example_now 0 1 example_world)
        = fire_arrow example_now 0 1 example_world"
    by blast
  ultimately show ?thesis using h by simp
qed

subsection \<open>Calls outside their state\<close>

text \<open>
  Claim C7, as stated, asks that \<open>fire\<close> outside the state \<open>AIM\<close> changes nothing.
  \<open>fire_arrow\<close> tests \<open>arrow_used\<close> only: on the example board, which is in the state
  \<open>PLAYING\<close> with the arrow unused, it fires.
\<close>

theorem fire_outside_aim_counterexample:
  "game_state example_world \<noteq> AIM
   \<and> fire_arrow example_now 0 1 example_world \<noteq> example_world"
proof -
  have "game_state example_world \<noteq> AIM"
    by (simp add: example_world_def)
  moreover have "arrow_used (fire_arrow example_now 0 1 example_world)"
    by (rule fire_arrow_fields)
  moreover have "\<not> arrow_used example_world"
    by (simp add: example_world_def)
  ultimately show ?thesis by auto
qed

text \<open>
  Claim C7, amended. \<open>fire_arrow\<close> with the arrow already used, \<open>move\<close> outside \<open>PLAYING\<close>
  and \<open>grab\<close> outside \<open>PLAYING\<close> leave the state unchanged. \<open>fire_arrow\<close> does not look at
  the game state; the restriction of firing to \<open>AIM\<close> is made by the keyboard dispatch:
  outside \<open>AIM\<close> a direction key never fires (the arrow and \<open>arrow_used\<close> stay as they are),
  and outside \<open>AIM\<close> and \<open>PLAYING\<close> it changes nothing.
\<close>

theorem illegal_actions_ignored:
  "(arrow_used w \<longrightarrow> fire_arrow now dr dc w = w)
   \<and> (game_state w \<noteq> PLAYING \<longrightarrow> move now dr dc w = w)
   \<and> (game_state w \<noteq> PLAYING \<longrightarrow> grab now w = w)
   \<and> (game_state w \<noteq> AIM \<longrightarrow>
        (\<forall>k \<in> {K_UP, K_DOWN, K_LEFT, K_RIGHT}.
           \<exists>w'. key_down now k w running samples = Returned (w', running, samples)
              \<and> arrow_used w' = arrow_used w \<and> arrow w' = arrow w
              \<and> (game_state w \<noteq> PLAYING \<longrightarrow> w' = w)))"
proof (intro conjI impI ballI)
  assume "arrow_used w"
  then show "fire_arrow now dr dc w = w" by (simp add: fire_arrow_def)
next
  assume "game_state w \<noteq> PLAYING"
  then show "move now dr dc w = w" by (simp add: move_def)
next
  assume "game_state w \<noteq> PLAYING"
  then show "grab now w = w" by (simp add: grab_def)
next
  fix k
  assume na: "game_state w \<noteq> AIM" and k: "k \<in> {K_UP, K_DOWN, K_LEFT, K_RIGHT}"
  show "\<exists>w'. key_down now k w running samples = Returned (w', running, samples)
              \<and> arrow_used w' = arrow_used w \<and> arrow w' = arrow w
              \<and> (game_state w \<noteq> PLAYING \<longrightarrow> w' = w)"
  proof (cases "game_state w = PLAYING")
    case True
    from k consider "k = K_UP" | "k = K_DOWN" | "k = K_LEFT" | "k = K_RIGHT" by auto
    then show ?thesis
      by cases (simp_all add: key_down_def True move_fields)
  next
    case False
    from k consider "k = K_UP" | "k = K_DOWN" | "k = K_LEFT" | "k = K_RIGHT" by auto
    then show ?thesis
      using na False by cases (simp_all add: key_down_def)
  qed
qed

theorem illegal_actions_ignored_witness:
  "arrow_used example_flight
   \<and> fire_arrow example_now 1 0 example_flight = example_flight
   \<and> game_state (example_world\<lparr>game_state := PAUSED\<rparr>) \<noteq> PLAYING
   \<and> move example_now 0 1 (example_world\<lparr>game_state := PAUSED\<rparr>)
        = example_world\<lparr>game_state := PAUSED\<rparr>
   \<and> grab example_now (example_world\<lparr>game_state := PAUSED\<rparr>)
        = example_world\<lparr>game_state := PAUSED\<rparr>
   \<and> game_state (example_world\<lparr>game_state := PAUSED\<rparr>) \<noteq> AIM
   \<and> key_down example_now K_RIGHT (example_world\<lparr>game_state := PAUSED\<rparr>) True []
        = Returned (example_world\<lparr>game_state := PAUSED\<rparr>, True, [])"
proof -
  let ?p = "example_world\<lparr>game_state := PAUSED\<rparr>"
  have u: "arrow_used example_flight" by (simp add: example_flight_def)
  have p: "game_state ?p \<noteq> PLAYING" "game_state ?p \<noteq> AIM" by simp_all
  note a = illegal_actions_ignored [of example_flight example_now 1 0 running samples
      for running samples]
  note b = illegal_actions_ignored [of ?p example_now 0 1 True "[]"]
  from a u have f: "fire_arrow example_now 1 0 example_flight = example_flight" by blast
  from b p have m: "move example_now 0 1 ?p = ?p" and g: "grab example_now ?p = ?p"
    by blast+
  from b p have "\<forall>k \<in> {K_UP, K_DOWN, K_LEFT, K_RIGHT}.
           \<exists>w'. key_down example_now k ?p True [] = Returned (w', True, [])
              \<and> arrow_used w' = arrow_used ?p \<and> arrow w' = arrow ?p
              \<and> (game_state ?p \<noteq> PLAYING \<longrightarrow> w' = ?p)"
    by blast
  then have "\<exists>w'. key_down example_now K_RIGHT ?p True [] = Returned (w', True, [])
              \<and> (game_state ?p \<noteq> PLAYING \<longrightarrow> w' = ?p)"
    by blast
  with p have kd: "key_down example_now K_RIGHT ?p True [] = Returned (?p, True, [])"
    by auto
  from u f p m g kd show ?thesis by blast
qed

subsection \<open>Percepts\<close>

text \<open>
  Claim C9. \<open>percepts\<close> is a function of the state alone and returns a list drawn from
  Breeze, Stench, Glitter. With the agent on the grid (as it is in every state the
  engine reaches, see \<open>run_agent_on_grid\<close>): Breeze is present iff some cell
  that is orthogonally adjacent to the agent and inside the grid is a pit; Stench is
  present iff the Wumpus is alive and on such a cell; Glitter is present iff the agent
  is on the gold's cell and does not carry the gold. The cells that \<open>adjacent\<close> looks at
  are all inside the grid, and two states that agree on the grid size, the agent's
  position, the pits, the Wumpus, the gold and the two flags have the same percepts.
\<close>

theorem percepts_spec:
  assumes "in_bounds (grid_size w) (agent_pos w)"
  shows "set (percepts w) \<subseteq> {''Breeze'', ''Stench'', ''Glitter''}
       \<and> (''Breeze'' \<in> set (percepts w) \<longleftrightarrow>
            (\<exists>c. orth_adjacent (agent_pos w) c \<and> in_bounds (grid_size w) c \<and> c \<in> set (pits w)))
       \<and> (''Stench'' \<in> set (percepts w) \<longleftrightarrow>
            wumpus_alive w \<and> orth_adjacent (agent_pos w) (wumpus w)
            \<and> in_bounds (grid_size w) (wumpus w))
       \<and> (''Glitter'' \<in> set (percepts w) \<longleftrightarrow> agent_pos w = gold w \<and> \<not> has_gold w)
       \<and> (\<forall>c \<in> set (adjacent w (agent_pos w)). in_bounds (grid_size w) c)
       \<and> (\<forall>v. grid_size v = grid_size w \<and> agent_pos v = agent_pos w \<and> pits v = pits w
              \<and> wumpus v = wumpus w \<and> wumpus_alive v = wumpus_alive w
              \<and> gold v = gold w \<and> has_gold v = has_gold w \<longrightarrow> percepts v = percepts w)"
proof (intro conjI allI impI ballI)
  note adj = adjacent_iff [OF assms]
  show "set (percepts w) \<subseteq> {''Breeze'', ''Stench'', ''Glitter''}"
    by (auto simp: percepts_def)
  show "''Breeze'' \<in> set (percepts w) \<longleftrightarrow>
      (\<exists>c. orth_adjacent (agent_pos w) c \<and> in_bounds (grid_size w) c \<and> c \<in> set (pits w))"
    by (auto simp: percepts_def list_ex_iff adj)
  show "''Stench'' \<in> set (percepts w) \<longleftrightarrow>
      wumpus_alive w \<and> orth_adjacent (agent_pos w) (wumpus w) \<and> in_bounds (grid_size w) (wumpus w)"
    by (auto simp: percepts_def adj)
  show "''Glitter'' \<in> set (percepts w) \<longleftrightarrow> agent_pos w = gold w \<and> \<not> has_gold w"
    by (auto simp: percepts_def)
  show "in_bounds (grid_size w) c" if "c \<in> set (adjacent w (agent_pos w))" for c
    using that by (simp add: adj)
  show "percepts v = percepts w"
    if "grid_size v = grid_size w \<and> agent_pos v = agent_pos w \<and> pits v = pits w
              \<and> wumpus v = wumpus w \<and> wumpus_alive v = wumpus_alive w
              \<and> gold v = gold w \<and> has_gold v = has_gold w" for v
    using that by (simp add: percepts_def adjacent_def)
qed

theorem percepts_spec_witness:
  "in_bounds (grid_size (example_world\<lparr>agent_pos := (0, 1)\<rparr>))
     (agent_pos (example_world\<lparr>agent_pos := (0, 1)\<rparr>))
   \<and> percepts (example_world\<lparr>agent_pos := (0, 1)\<rparr>) = [''Stench'']
   \<and> ''Stench'' \<in> set (percepts (example_world\<lparr>agent_pos := (0, 1)\<rparr>))
   \<and> orth_adjacent (agent_pos (example_world\<lparr>agent_pos := (0, 1)\<rparr>))
        (wumpus (example_world\<lparr>agent_pos := (0, 1)\<rparr>))"
proof -
  let ?w = "example_world\<lparr>agent_pos := (0, 1)\<rparr>"
  have h: "in_bounds (grid_size ?w) (agent_pos ?w)"
    by (simp add: in_bounds_def example_world_def)
  have p: "percepts ?w = [''Stench'']"
    by (simp add: percepts_def adjacent_def example_world_def)
  then have s: "''Stench'' \<in> set (percepts ?w)" by simp
  from percepts_spec [OF h] s have "orth_adjacent (agent_pos ?w) (wumpus ?w)"
    by blast
  with h p s show ?thesis by blast
qed

subsection \<open>Grabbing at the start cell\<close>

text \<open>
  Claim C10. In the state \<open>PLAYING\<close>, with the gold already in hand and the agent on
  \<open>(0, 0)\<close>, \<open>grab\<close> sets the state to \<open>WIN\<close> and changes nothing but the state and the
  message; in particular the score is unchanged. The test for winning comes after, and
  does not depend on, the test for picking the gold up, so it holds wherever the gold's
  cell is.
\<close>

theorem grab_wins_at_start:
  assumes "game_state w = PLAYING" "has_gold w" "agent_pos w = (0, 0)"
  shows "grab now w = w\<lparr>game_state := WIN, message := ''Escaped with the gold!''\<rparr>
       \<and> game_state (grab now w) = WIN
       \<and> score (grab now w) = score w"
  using assms by (simp add: grab_def)

theorem grab_wins_at_start_witness:
  "game_state example_carrying = PLAYING \<and> has_gold example_carrying
   \<and> agent_pos example_carrying = (0, 0)
   \<and> game_state (grab example_now example_carrying) = WIN
   \<and> score (grab example_now example_carrying) = 1040"
proof -
  have h: "game_state example_carrying = PLAYING" "has_gold example_carrying"
    "agent_pos example_carrying = (0, 0)"
    by (simp_all add: example_carrying_def example_world_def)
  have s: "score example_carrying = 1040"
    by (simp add: example_carrying_def)
  from grab_wins_at_start [OF h, of example_now] h s show ?thesis by simp
qed

section \<open>The high-score file\<close>

lemma rows_ok_entries:
  assumes "rows_ok rs"
  shows "rs = map write_row (map entry_of rs)" and "distinct (map fst (map entry_of rs))"
proof -
  have all: "\<forall>r \<in> set rs. row_grid_size r \<noteq> None \<and> row_score r \<noteq> None \<and> row_date r \<noteq> None"
    using assms by (simp add: rows_ok_def list_all_iff)
  then have "\<forall>r \<in> set rs. write_row (entry_of r) = r"
    by (auto simp: write_row_def entry_of_def)
  then show "rs = map write_row (map entry_of rs)"
    by (simp add: map_idI)
  have eq: "map row_grid_size rs = map Some (map fst (map entry_of rs))"
    using all by (auto simp: entry_of_def)
  have "distinct (map row_grid_size rs)"
    using assms by (simp add: rows_ok_def)
  then have "distinct (map Some (map fst (map entry_of rs)))"
    unfolding eq .
  then show "distinct (map fst (map entry_of rs))"
    using distinct_map [of Some "map fst (map entry_of rs)"] by blast
qed

lemma rows_ok_written:
  "distinct (map fst al) \<Longrightarrow> rows_ok (map write_row al)"
proof -
  assume d: "distinct (map fst al)"
  have eq: "map row_grid_size (map write_row al) = map Some (map fst al)"
    by (simp add: write_row_def comp_def)
  have "inj_on Some (set (map fst al))"
    by (rule inj_Some)
  then have "distinct (map Some (map fst al))"
    using d distinct_map [of Some "map fst al"] by blast
  then have "distinct (map row_grid_size (map write_row al))"
    unfolding eq .
  then show ?thesis
    by (simp add: rows_ok_def list_all_iff write_row_def)
qed

lemma write_row_fields:
  "row_grid_size (write_row e) = Some (fst e)"
  "row_score (write_row e) = Some (fst (snd e))"
  "row_date (write_row e) = Some (snd (snd e))"
  by (simp_all add: write_row_def)

lemma update_fresh: "k \<notin> fst ` set al \<Longrightarrow> AList.update k v al = al @ [(k, v)]"
  by (induction al) auto

lemma read_scores_written:
  "distinct (map fst (acc @ al)) \<Longrightarrow> read_scores (map write_row al) acc = acc @ al"
proof (induction al arbitrary: acc)
  case Nil
  then show ?case by simp
next
  case (Cons e al)
  obtain k v where e: "e = (k, v)" by (cases e)
  have fresh: "k \<notin> fst ` set acc" using Cons.prems e by auto
  have "distinct (map fst ((acc @ [(k, v)]) @ al))" using Cons.prems e by auto
  then have "read_scores (map write_row al) (acc @ [(k, v)]) = (acc @ [(k, v)]) @ al"
    by (rule Cons.IH)
  then show ?case
    using fresh by (simp add: e write_row_fields update_fresh)
qed

lemma load_rows_written: "load_rows gs (map write_row al) = current_high al gs"
  by (induction al) (auto simp: write_row_fields current_high_def)

lemma distinct_keys_sort:
  "distinct (map fst al) \<Longrightarrow> distinct (map fst (sort_key fst (al :: scores)))"
  by (simp add: distinct_map)

lemma current_high_sort:
  "distinct (map fst al) \<Longrightarrow> current_high (sort_key fst (al :: scores)) gs = current_high al gs"
proof -
  assume d: "distinct (map fst al)"
  have "map_of (sort_key fst al) = map_of al"
    using d distinct_keys_sort [OF d] by (simp add: map_of_inject_set)
  then show ?thesis by (simp add: current_high_def)
qed

lemma filter_update_other:
  "g \<noteq> k \<Longrightarrow> filter (\<lambda>e. fst e = g) (AList.update k v al) = filter (\<lambda>e. fst e = g) al"
  by (induction al) auto

lemma filter_written:
  "filter (\<lambda>r. row_grid_size r = Some g) (map write_row al)
     = map write_row (filter (\<lambda>e. fst e = g) al)"
  by (induction al) (auto simp: write_row_fields)

text \<open>What a save does to a well-formed store, in terms of its entries.\<close>

lemma save_entries:
  assumes "distinct (map fst al)"
  shows "save_high_score now (Some (map write_row al)) gs sc =
           (if sc > current_high al gs
            then Some (map write_row (sort_key fst (AList.update gs (sc, now) al)))
            else Some (map write_row al))"
  using assms read_scores_written [of "[]" al] by (simp add: save_high_score_def)

lemma save_absent:
  "save_high_score now None gs sc =
     (if sc > 0 then Some (map write_row [(gs, (sc, now))]) else None)"
  by (simp add: save_high_score_def current_high_def)

lemma store_ok_entries: "store_ok f \<Longrightarrow> distinct (map fst (entries f))"
proof (cases f)
  case None
  then show ?thesis by (simp add: entries_def rows_of_def)
next
  case (Some rs)
  assume "store_ok f"
  then have "rows_ok rs" using Some by (simp add: store_ok_def)
  then have "distinct (map fst (map entry_of rs))" by (rule rows_ok_entries(2))
  then show ?thesis using Some by (simp add: entries_def rows_of_def)
qed

lemma load_entries: "store_ok f \<Longrightarrow> load_high_score f gs = current_high (entries f) gs"
proof (cases f)
  case None
  then show ?thesis
    by (simp add: load_high_score_def entries_def rows_of_def current_high_def)
next
  case (Some rs)
  assume "store_ok f"
  then have "rs = map write_row (entries f)"
    using Some rows_ok_entries(1) [of rs] by (simp add: store_ok_def entries_def rows_of_def)
  then have "load_rows gs rs = current_high (entries f) gs"
    using load_rows_written [of gs "entries f"] by simp
  then show ?thesis
    using Some by (simp add: load_high_score_def)
qed

lemma save_store_ok:
  assumes "store_ok f"
  shows "save_high_score now f gs sc =
           (if sc > current_high (entries f) gs
            then Some (map write_row (sort_key fst (AList.update gs (sc, now) (entries f))))
            else f)"
proof (cases f)
  case None
  then show ?thesis
    by (simp add: save_absent entries_def rows_of_def current_high_def write_row_def)
next
  case (Some rs)
  define al where "al = entries f"
  have d: "distinct (map fst al)"
    unfolding al_def by (rule store_ok_entries [OF assms])
  have "rs = map write_row (map entry_of rs)"
    using assms Some rows_ok_entries(1) [of rs] by (simp add: store_ok_def)
  then have f: "f = Some (map write_row al)"
    using Some by (simp add: al_def entries_def rows_of_def)
  show ?thesis
    unfolding al_def [symmetric]
    using save_entries [OF d, of now gs sc] by (simp add: f)
qed

lemma current_high_update:
  "current_high (AList.update k (s, d) al) g = (if g = k then s else current_high al g)"
  by (simp add: current_high_def update_conv')

lemma load_written:
  assumes "distinct (map fst al)"
  shows "load_high_score (Some (map write_row (sort_key fst (AList.update k (s, d) al)))) g
           = (if g = k then s else current_high al g)"
proof -
  have "distinct (map fst (AList.update k (s, d) al))"
    using assms by (rule distinct_update)
  then have "current_high (sort_key fst (AList.update k (s, d) al)) g
               = current_high (AList.update k (s, d) al) g"
    by (rule current_high_sort)
  then show ?thesis
    by (simp add: load_high_score_def load_rows_written current_high_update)
qed

lemma save_preserves_ok: "store_ok f \<Longrightarrow> store_ok (save_high_score now f gs sc)"
proof -
  assume ok: "store_ok f"
  have "distinct (map fst (sort_key fst (AList.update gs (sc, now) (entries f))))"
    by (rule distinct_keys_sort [OF distinct_update [OF store_ok_entries [OF ok]]])
  then have "rows_ok (map write_row (sort_key fst (AList.update gs (sc, now) (entries f))))"
    by (rule rows_ok_written)
  then show ?thesis
    using ok by (simp add: save_store_ok [OF ok] store_ok_def)
qed

lemma load_after_save:
  assumes "store_ok f"
  shows "load_high_score (save_high_score now f gs sc) g =
           (if g = gs \<and> sc > load_high_score f gs then sc else load_high_score f g)"
  using load_written [OF store_ok_entries [OF assms], of gs sc now g]
  by (auto simp: save_store_ok [OF assms] load_entries [OF assms])

lemma record_for_save:
  assumes "store_ok f" "g \<noteq> gs"
  shows "record_for (save_high_score now f gs sc) g = record_for f g"
proof (cases "sc > current_high (entries f) gs")
  case False
  then show ?thesis by (simp add: save_store_ok [OF assms(1)])
next
  case True
  have "filter (\<lambda>e. fst e = g) (sort_key fst (AList.update gs (sc, now) (entries f)))
          = filter (\<lambda>e. fst e = g) (entries f)"
    using assms(2) by (simp add: sort_key_stable filter_update_other)
  then have new: "record_for (save_high_score now f gs sc) g
          = map write_row (filter (\<lambda>e. fst e = g) (entries f))"
    using True by (simp add: save_store_ok [OF assms(1)] record_for_def rows_of_def filter_written)
  have "rows_of f = map write_row (entries f)"
  proof (cases f)
    case None
    then show ?thesis by (simp add: rows_of_def entries_def)
  next
    case (Some rs)
    then show ?thesis
      using assms(1) rows_ok_entries(1) [of rs]
      by (simp add: store_ok_def entries_def rows_of_def)
  qed
  then have "record_for f g = map write_row (filter (\<lambda>e. fst e = g) (entries f))"
    by (simp add: record_for_def filter_written)
  then show ?thesis using new by simp
qed

lemma save_all_ok: "store_ok f \<Longrightarrow> store_ok (save_all reqs f)"
  unfolding save_all_def
  by (induction reqs arbitrary: f) (simp_all add: save_preserves_ok)

lemma save_all_mono:
  "store_ok f \<Longrightarrow> load_high_score f g \<le> load_high_score (save_all reqs f) g"
proof (induction reqs arbitrary: f)
  case Nil
  then show ?case by (simp add: save_all_def)
next
  case (Cons q reqs)
  let ?f1 = "save_high_score (fst q) f (fst (snd q)) (snd (snd q))"
  have ok1: "store_ok ?f1" using Cons.prems by (rule save_preserves_ok)
  have "load_high_score f g \<le> load_high_score ?f1 g"
    using Cons.prems by (simp add: load_after_save)
  also have "\<dots> \<le> load_high_score (save_all reqs ?f1) g"
    using ok1 by (rule Cons.IH)
  finally show ?case by (simp add: save_all_def)
qed

subsection \<open>The high-score store\<close>

text \<open>
  Claim C6. On a store that holds one readable row per grid size (the absent file, and
  every file that \<open>save_high_score\<close> has written; a save keeps the store so):
  \<open>save_high_score\<close> leaves the file as it is unless the score is strictly greater than
  the value stored for that grid size; after saving a strictly greater score,
  \<open>load_high_score\<close> returns it; the rows of every other grid size are unchanged; and over
  any sequence of saves the value that \<open>load_high_score\<close> returns for a grid size never
  decreases.
\<close>

theorem save_high_score_spec:
  assumes "store_ok f"
  shows "store_ok (save_high_score now f gs sc)
       \<and> (sc \<le> load_high_score f gs \<longrightarrow> save_high_score now f gs sc = f)
       \<and> (sc > load_high_score f gs \<longrightarrow> load_high_score (save_high_score now f gs sc) gs = sc)
       \<and> (\<forall>g. g \<noteq> gs \<longrightarrow> record_for (save_high_score now f gs sc) g = record_for f g)
       \<and> (\<forall>g reqs. load_high_score f g \<le> load_high_score (save_all reqs f) g)"
proof -
  have a: "store_ok (save_high_score now f gs sc)"
    using assms by (rule save_preserves_ok)
  have b: "sc \<le> load_high_score f gs \<longrightarrow> save_high_score now f gs sc = f"
    by (simp add: save_store_ok [OF assms] load_entries [OF assms])
  have c: "sc > load_high_score f gs \<longrightarrow> load_high_score (save_high_score now f gs sc) gs = sc"
    by (simp add: load_after_save [OF assms])
  have d: "\<forall>g. g \<noteq> gs \<longrightarrow> record_for (save_high_score now f gs sc) g = record_for f g"
    using assms by (simp add: record_for_save)
  have e: "\<forall>g reqs. load_high_score f g \<le> load_high_score (save_all reqs f) g"
    using assms by (simp add: save_all_mono)
  from a b c d e show ?thesis by blast
qed

theorem save_high_score_spec_witness:
  "store_ok example_store
   \<and> load_high_score example_store 6 = 500
   \<and> save_high_score example_now example_store 6 300 = example_store
   \<and> load_high_score (save_high_score example_now example_store 6 700) 6 = 700
   \<and> record_for (save_high_score example_now example_store 4 90) 6 = record_for example_store 6"
proof -
  have h: "store_ok example_store"
    by (simp add: example_store_def store_ok_def rows_ok_def write_row_def)
  have l: "load_high_score example_store 6 = 500"
    by (simp add: example_store_def load_high_score_def write_row_def)
  from save_high_score_spec [OF h, of example_now 6 300] l
  have a: "save_high_score example_now example_store 6 300 = example_store" by simp
  from save_high_score_spec [OF h, of example_now 6 700] l
  have b: "load_high_score (save_high_score example_now example_store 6 700) 6 = 700" by simp
  from save_high_score_spec [OF h, of example_now 4 90]
  have c: "record_for (save_high_score example_now example_store 4 90) 6
      = record_for example_store 6" by simp
  from h l a b c show ?thesis by blast
qed

text \<open>The hypothesis \<open>store_ok\<close> is needed. In a file with two rows for one grid size,
  \<open>load_high_score\<close> reads the first and \<open>save_high_score\<close> compares with the last.\<close>

lemma save_high_score_two_rows:
  "load_high_score (Some [write_row (6, (500, d)), write_row (6, (100, d))]) 6 = 500
   \<and> load_high_score
        (save_high_score now (Some [write_row (6, (500, d)), write_row (6, (100, d))]) 6 300) 6
      = 300"
  by (simp add: load_high_score_def save_high_score_def current_high_def write_row_def)

section \<open>World generation\<close>

lemma rand_Returned:
  "rand gs ex s = Returned (c, rest) \<Longrightarrow>
     0 < gs \<and> c \<notin> set ex \<and> c \<in> set s \<and> set rest \<subseteq> set s"
  by (induction s) (auto split: if_splits)

lemma rand_append_Returned:
  "rand gs ex s = Returned (c, rest) \<Longrightarrow> rand gs ex (s @ e) = Returned (c, rest @ e)"
  by (induction s) (auto split: if_splits)

lemma rand_append_NoReturn:
  "rand gs ex s = NoReturn \<Longrightarrow> rand gs ex (s @ e) = rand gs ex e"
  by (induction s) (auto split: if_splits)

lemma rand_Raised: "rand gs ex s = Raised e \<Longrightarrow> gs \<le> 0"
  by (induction s) (auto split: if_splits)

lemma rand_blocked: "0 < gs \<Longrightarrow> set s \<subseteq> set ex \<Longrightarrow> rand gs ex s = NoReturn"
  by (induction s) auto

lemma rand_found:
  "0 < gs \<Longrightarrow> c \<in> set s \<Longrightarrow> c \<notin> set ex \<Longrightarrow> \<exists>p rest. rand gs ex s = Returned (p, rest)"
  by (induction s) auto

lemma grid_cells: "{c. in_bounds gs c} = {0..<gs} \<times> {0..<gs}"
  by (auto simp: in_bounds_def)

lemma card_grid: "card {c. in_bounds gs c} = nat gs * nat gs"
  by (simp add: grid_cells)

lemma finite_grid: "finite {c. in_bounds gs c}"
  by (simp add: grid_cells)

lemma free_cell:
  assumes "length ex < nat gs * nat gs"
  shows "\<exists>c. in_bounds gs c \<and> c \<notin> set ex"
proof (rule ccontr)
  assume "\<not> (\<exists>c. in_bounds gs c \<and> c \<notin> set ex)"
  then have "{c. in_bounds gs c} \<subseteq> set ex" by auto
  then have "card {c. in_bounds gs c} \<le> card (set ex)"
    by (simp add: card_mono)
  also have "\<dots> \<le> length ex" by (rule card_length)
  finally show False using assms by (simp add: card_grid)
qed

lemma distinct_in_grid:
  assumes "distinct cs" "all_in_bounds gs cs"
  shows "length cs \<le> nat gs * nat gs"
proof -
  have "set cs \<subseteq> {c. in_bounds gs c}"
    using assms(2) by (auto simp: all_in_bounds_def list_all_iff)
  then have "card (set cs) \<le> card {c. in_bounds gs c}"
    using finite_grid by (rule card_mono [rotated])
  then show ?thesis
    using assms(1) by (simp add: distinct_card card_grid)
qed

lemma place_pits_Returned:
  "place_pits gs n wu go ps s = Returned (ps', rest) \<Longrightarrow> distinct ((0, 0) # wu # go # ps) \<Longrightarrow>
     distinct ((0, 0) # wu # go # ps') \<and> length ps' = length ps + n
     \<and> set ps' \<subseteq> set ps \<union> set s \<and> set rest \<subseteq> set s"
proof (induction n arbitrary: ps s)
  case 0
  then show ?case by auto
next
  case (Suc n)
  from Suc.prems(1) obtain p r where
    r: "rand gs ([(0, 0), wu, go] @ ps) s = Returned (p, r)"
    and pp: "place_pits gs n wu go (ps @ [p]) r = Returned (ps', rest)"
    by (auto split: outcome.splits)
  from rand_Returned [OF r] have p: "p \<notin> set ([(0, 0), wu, go] @ ps)" "p \<in> set s" "set r \<subseteq> set s"
    by auto
  have "distinct ((0, 0) # wu # go # (ps @ [p]))"
    using Suc.prems(2) p(1) by auto
  from Suc.IH [OF pp this] show ?case
    using p by auto
qed

lemma rand_extend:
  assumes "0 < gs" "length ex < nat gs * nat gs" "all_in_bounds gs s"
  shows "\<exists>e c r. all_in_bounds gs e \<and> rand gs ex (s @ e) = Returned (c, r) \<and> all_in_bounds gs r"
proof (cases "rand gs ex s")
  case (Returned x)
  obtain c r where x: "x = (c, r)" by (cases x)
  have "set r \<subseteq> set s" using rand_Returned [of gs ex s c r] Returned x by simp
  then have "all_in_bounds gs r"
    using assms(3) by (auto simp: all_in_bounds_def list_all_iff)
  moreover have "rand gs ex (s @ []) = Returned (c, r)" using Returned x by simp
  moreover have "all_in_bounds gs []" by (simp add: all_in_bounds_def)
  ultimately show ?thesis by blast
next
  case (Raised e)
  then show ?thesis using rand_Raised assms(1) by fastforce
next
  case NoReturn
  obtain c0 where c0: "in_bounds gs c0" "c0 \<notin> set ex"
    using free_cell [OF assms(2)] by blast
  have "rand gs ex (s @ [c0]) = Returned (c0, [])"
    using c0(2) assms(1) by (simp add: rand_append_NoReturn [OF NoReturn])
  moreover have "all_in_bounds gs [c0]" using c0(1) by (simp add: all_in_bounds_def)
  moreover have "all_in_bounds gs []" by (simp add: all_in_bounds_def)
  ultimately show ?thesis by blast
qed

lemma place_pits_append:
  "place_pits gs n wu go ps s = Returned (ps', rest) \<Longrightarrow>
     place_pits gs n wu go ps (s @ e) = Returned (ps', rest @ e)"
proof (induction n arbitrary: ps s)
  case 0
  then show ?case by simp
next
  case (Suc n)
  from Suc.prems obtain p r where
    r: "rand gs ([(0, 0), wu, go] @ ps) s = Returned (p, r)"
    and pp: "place_pits gs n wu go (ps @ [p]) r = Returned (ps', rest)"
    by (auto split: outcome.splits)
  show ?case
    using rand_append_Returned [OF r, of e] Suc.IH [OF pp] by simp
qed

lemma place_pits_extend:
  assumes "0 < gs"
  shows "length ps + 3 + n \<le> nat gs * nat gs \<Longrightarrow> all_in_bounds gs s \<Longrightarrow>
     \<exists>e ps' r. all_in_bounds gs e \<and> place_pits gs n wu go ps (s @ e) = Returned (ps', r)"
proof (induction n arbitrary: ps s)
  case 0
  have "all_in_bounds gs []" by (simp add: all_in_bounds_def)
  moreover have "place_pits gs 0 wu go ps (s @ []) = Returned (ps, s)" by simp
  ultimately show ?case by blast
next
  case (Suc n)
  have "length ([(0, 0), wu, go] @ ps) < nat gs * nat gs"
    using Suc.prems(1) by simp
  from rand_extend [OF assms this Suc.prems(2)] obtain e1 p r1 where
    e1: "all_in_bounds gs e1" "rand gs ([(0, 0), wu, go] @ ps) (s @ e1) = Returned (p, r1)"
      "all_in_bounds gs r1"
    by blast
  have "length (ps @ [p]) + 3 + n \<le> nat gs * nat gs"
    using Suc.prems(1) by simp
  from Suc.IH [OF this e1(3)] obtain e2 ps' r where
    e2: "all_in_bounds gs e2" "place_pits gs n wu go (ps @ [p]) (r1 @ e2) = Returned (ps', r)"
    by blast
  have "rand gs ([(0, 0), wu, go] @ ps) (s @ (e1 @ e2)) = Returned (p, r1 @ e2)"
    using rand_append_Returned [OF e1(2), of e2] by simp
  then have "place_pits gs (Suc n) wu go ps (s @ (e1 @ e2)) = Returned (ps', r)"
    using e2(2) by simp
  moreover have "all_in_bounds gs (e1 @ e2)"
    using e1(1) e2(1) by (simp add: all_in_bounds_def)
  ultimately show ?case by blast
qed

lemma init_board_Returned:
  assumes "init_board w s = Returned (w', rest)"
  shows "\<exists>wu r1 go r2 ps.
           rand (grid_size w) [(0, 0)] s = Returned (wu, r1)
         \<and> rand (grid_size w) [(0, 0), wu] r1 = Returned (go, r2)
         \<and> place_pits (grid_size w) (nat (num_pits w)) wu go [] r2 = Returned (ps, rest)
         \<and> wumpus w' = wu \<and> gold w' = go \<and> pits w' = ps \<and> grid_size w' = grid_size w"
  using assms unfolding init_board_def Let_def
  by (auto split: outcome.splits)

lemma init_board_intro:
  assumes "rand (grid_size w) [(0, 0)] s = Returned (wu, r1)"
    "rand (grid_size w) [(0, 0), wu] r1 = Returned (go, r2)"
    "place_pits (grid_size w) (nat (num_pits w)) wu go [] r2 = Returned (ps, rest)"
  shows "\<exists>w'. init_board w s = Returned (w', rest)"
  using assms unfolding init_board_def Let_def by simp

lemma init_board_placement:
  assumes "init_board w s = Returned (w', rest)"
  shows "distinct ((0, 0) # wumpus w' # gold w' # pits w')"
    and "length (pits w') = nat (num_pits w)"
    and "0 < grid_size w"
    and "set (wumpus w' # gold w' # pits w') \<subseteq> set s"
    and "grid_size w' = grid_size w"
proof -
  from init_board_Returned [OF assms] obtain wu r1 go r2 ps where
    a: "rand (grid_size w) [(0, 0)] s = Returned (wu, r1)"
    and b: "rand (grid_size w) [(0, 0), wu] r1 = Returned (go, r2)"
    and c: "place_pits (grid_size w) (nat (num_pits w)) wu go [] r2 = Returned (ps, rest)"
    and w': "wumpus w' = wu" "gold w' = go" "pits w' = ps" "grid_size w' = grid_size w"
    by blast
  note ra = rand_Returned [OF a] and rb = rand_Returned [OF b]
  show "0 < grid_size w" using ra by simp
  have d0: "distinct ((0, 0) # wu # go # [])"
    using ra rb by auto
  note pp = place_pits_Returned [OF c d0]
  show "distinct ((0, 0) # wumpus w' # gold w' # pits w')"
    using pp w' by simp
  show "length (pits w') = nat (num_pits w)"
    using pp w' by simp
  show "set (wumpus w' # gold w' # pits w') \<subseteq> set s"
    using pp ra rb w' by auto
  show "grid_size w' = grid_size w" by (rule w'(4))
qed

lemma init_board_no_room:
  assumes "all_in_bounds (grid_size w) s"
    and "nat (grid_size w) * nat (grid_size w) < nat (num_pits w) + 3"
  shows "init_board w s \<noteq> Returned x"
proof
  assume r: "init_board w s = Returned x"
  obtain w' rest where x: "x = (w', rest)" by (cases x)
  note p = init_board_placement [OF r [unfolded x]]
  have "in_bounds (grid_size w) (0, 0)"
    using p(3) by (simp add: in_bounds_def)
  moreover have "all_in_bounds (grid_size w) (wumpus w' # gold w' # pits w')"
    using p(4) assms(1) unfolding all_in_bounds_def list_all_iff by blast
  ultimately have "all_in_bounds (grid_size w) ((0, 0) # wumpus w' # gold w' # pits w')"
    by (simp add: all_in_bounds_def)
  from distinct_in_grid [OF p(1) this]
  have "length (pits w') + 3 \<le> nat (grid_size w) * nat (grid_size w)" by simp
  then show False using p(2) assms(2) by simp
qed

lemma init_board_extend:
  assumes "0 < grid_size w" "nat (num_pits w) + 3 \<le> nat (grid_size w) * nat (grid_size w)"
    and "all_in_bounds (grid_size w) s"
  shows "\<exists>e w' rest. all_in_bounds (grid_size w) e \<and> init_board w (s @ e) = Returned (w', rest)"
proof -
  let ?gs = "grid_size w"
  have l1: "length [(0, 0) :: cell] < nat ?gs * nat ?gs" using assms(2) by simp
  from rand_extend [OF assms(1) l1 assms(3)] obtain e1 wu r1 where
    e1: "all_in_bounds ?gs e1" "rand ?gs [(0, 0)] (s @ e1) = Returned (wu, r1)"
      "all_in_bounds ?gs r1"
    by blast
  have l2: "length [(0, 0), wu] < nat ?gs * nat ?gs" using assms(2) by simp
  from rand_extend [OF assms(1) l2 e1(3)] obtain e2 go r2 where
    e2: "all_in_bounds ?gs e2" "rand ?gs [(0, 0), wu] (r1 @ e2) = Returned (go, r2)"
      "all_in_bounds ?gs r2"
    by blast
  have l3: "length ([] :: cell list) + 3 + nat (num_pits w) \<le> nat ?gs * nat ?gs"
    using assms(2) by simp
  from place_pits_extend [OF assms(1) l3 e2(3)] obtain e3 ps rest where
    e3: "all_in_bounds ?gs e3"
      "place_pits ?gs (nat (num_pits w)) wu go [] (r2 @ e3) = Returned (ps, rest)"
    by blast
  have b: "rand ?gs [(0, 0), wu] (r1 @ (e2 @ e3)) = Returned (go, r2 @ e3)"
    using rand_append_Returned [OF e2(2), of e3] by simp
  have a: "rand ?gs [(0, 0)] ((s @ (e1 @ e2 @ e3))) = Returned (wu, r1 @ (e2 @ e3))"
    using rand_append_Returned [OF e1(2), of "e2 @ e3"] by simp
  from init_board_intro [OF a b e3(2)] obtain w' where
    "init_board w (s @ (e1 @ e2 @ e3)) = Returned (w', rest)" by blast
  moreover have "all_in_bounds ?gs (e1 @ e2 @ e3)"
    using e1(1) e2(1) e3(1) by (simp add: all_in_bounds_def)
  ultimately show ?thesis by blast
qed

lemma room_from_3: "3 \<le> gs \<Longrightarrow> nat gs + 3 \<le> nat gs * nat gs"
proof -
  assume "3 \<le> gs"
  then have "3 \<le> nat gs" by simp
  then have "3 * nat gs \<le> nat gs * nat gs" by simp
  then show ?thesis using \<open>3 \<le> nat gs\<close> by linarith
qed

lemma init_board_invariants:
  assumes "init_board w s = Returned (w', rest)"
  shows "arrow_inv w'" and "agent_on_grid w'"
proof -
  note f = init_board_fresh [OF assms]
  note p = init_board_placement [OF assms]
  show "arrow_inv w'" by (simp add: arrow_inv_def f)
  show "agent_on_grid w'"
    using p(3) by (simp add: agent_on_grid_def in_bounds_def f p(5))
qed

subsection \<open>Generated worlds\<close>

text \<open>
  Claim C5. Whenever \<open>_init_board\<close> returns (for an object whose \<open>num_pits\<close> is its
  \<open>grid_size\<close>, as the constructor sets it), the start cell \<open>(0, 0)\<close>, the Wumpus, the gold
  and all pits are pairwise distinct, and the number of pits is the grid size.
\<close>

theorem generated_world_distinct:
  assumes "init_board w samples = Returned (w', rest)" "num_pits w = grid_size w"
  shows "distinct ((0, 0) # wumpus w' # gold w' # pits w')
       \<and> int (length (pits w')) = grid_size w'"
  using init_board_placement [OF assms(1)] assms(2) by simp

theorem generated_world_distinct_witness:
  "init_board example_world example_draws = Returned (example_world, [(2, 2)])
   \<and> num_pits example_world = grid_size example_world
   \<and> distinct ((0, 0) # wumpus example_world # gold example_world # pits example_world)
   \<and> int (length (pits example_world)) = grid_size example_world"
proof -
  have a: "init_board example_world example_draws = Returned (example_world, [(2, 2)])"
    by (simp add: init_board_def example_world_def example_draws_def numeral_eq_Suc)
  have b: "num_pits example_world = grid_size example_world"
    by (simp add: example_world_def)
  from a b generated_world_distinct [OF a b] show ?thesis by blast
qed

subsection \<open>Termination of generation\<close>

text \<open>
  Claim C8, as stated, asks that generation returns for every grid size from 2 on. On a
  2 by 2 grid the start cell, the Wumpus, the gold and the first pit fill the four
  cells; the second pit has no cell left, and no sequence of draws from the grid lets
  the constructor return.
\<close>

theorem generation_size_2_counterexample:
  "\<not> (\<exists>samples r. all_in_bounds 2 samples \<and> new_world 2 None 100 0 0 samples = Returned r)"
proof
  assume "\<exists>samples r. all_in_bounds 2 samples \<and> new_world 2 None 100 0 0 samples = Returned r"
  then obtain samples r where
    s: "all_in_bounds 2 samples" and r: "new_world 2 None 100 0 0 samples = Returned r"
    by blast
  have "init_board (blank_world 2 None 100 0 0) samples \<noteq> Returned r"
  proof (rule init_board_no_room)
    show "all_in_bounds (grid_size (blank_world 2 None 100 0 0)) samples"
      using s by (simp add: blank_world_def)
    show "nat (grid_size (blank_world 2 None 100 0 0)) * nat (grid_size (blank_world 2 None 100 0 0))
            < nat (num_pits (blank_world 2 None 100 0 0)) + 3"
      by (simp add: blank_world_def)
  qed
  then show False using r by (simp add: new_world_def)
qed

text \<open>
  Claim C8, amended. For every grid size from 3 on, the grid size many pits, the Wumpus,
  the gold and the start cell fit into the grid (\<open>n + 3 \<le> n * n\<close>); hence every
  exclusion list that generation uses (at most \<open>n + 2\<close> cells) leaves a cell of the grid
  free, \<open>_rand\<close> returns as soon as a free cell is drawn, and whatever has been drawn so
  far, the draws can go on so that generation returns.
\<close>

theorem generation_returns_from_3:
  assumes "3 \<le> grid_size w" "num_pits w = grid_size w"
    and "all_in_bounds (grid_size w) samples"
  shows "nat (grid_size w) + 3 \<le> nat (grid_size w) * nat (grid_size w)
       \<and> (\<forall>ex. length ex \<le> nat (grid_size w) + 2 \<longrightarrow>
              (\<exists>c. in_bounds (grid_size w) c \<and> c \<notin> set ex))
       \<and> (\<forall>ex c. c \<in> set samples \<and> c \<notin> set ex \<longrightarrow>
              (\<exists>p rest. rand (grid_size w) ex samples = Returned (p, rest)))
       \<and> (\<exists>ext w' rest. all_in_bounds (grid_size w) ext
              \<and> init_board w (samples @ ext) = Returned (w', rest))"
proof -
  have room: "nat (grid_size w) + 3 \<le> nat (grid_size w) * nat (grid_size w)"
    using assms(1) by (rule room_from_3)
  have pos: "0 < grid_size w" using assms(1) by simp
  have free: "\<exists>c. in_bounds (grid_size w) c \<and> c \<notin> set ex"
    if "length ex \<le> nat (grid_size w) + 2" for ex
  proof (rule free_cell)
    show "length ex < nat (grid_size w) * nat (grid_size w)" using that room by simp
  qed
  have found: "\<exists>p rest. rand (grid_size w) ex samples = Returned (p, rest)"
    if "c \<in> set samples \<and> c \<notin> set ex" for ex c
    using that rand_found [OF pos, of c samples ex] by simp
  have ext: "\<exists>ext w' rest. all_in_bounds (grid_size w) ext
              \<and> init_board w (samples @ ext) = Returned (w', rest)"
    using init_board_extend [OF pos _ assms(3)] room assms(2) by simp
  from room free found ext show ?thesis by blast
qed

theorem generation_returns_from_3_witness:
  "3 \<le> grid_size example_world
   \<and> num_pits example_world = grid_size example_world
   \<and> all_in_bounds (grid_size example_world) [(0, 0), (0, 0)]
   \<and> (\<exists>ext w' rest. all_in_bounds (grid_size example_world) ext
          \<and> init_board example_world ([(0, 0), (0, 0)] @ ext) = Returned (w', rest))"
proof -
  have a: "3 \<le> grid_size example_world"
    and b: "num_pits example_world = grid_size example_world"
    and c: "all_in_bounds (grid_size example_world) [(0, 0), (0, 0)]"
    by (simp_all add: example_world_def all_in_bounds_def in_bounds_def)
  from generation_returns_from_3 [OF a b c] a b c show ?thesis by blast
qed


end
